theory Spec2Isabelle
  imports Main "HOL-Library.Word"
begin

unbundle bit_operations_syntax

section \<open>Machine types and constants of lzpi.c\<close>

text \<open>
  \<^verbatim>\<open>uint8_t\<close> and \<open>uint32_t\<close> (and \<open>unsigned\<close>) are machine words: the decoder's
  write index wraps at 256 and the control-bit selector is rotated, so their wrap-around
  is part of the behaviour.  \<open>size_t\<close> ring indices are natural numbers: an index only
  grows by the number of bytes read from the source, it is used through \<open>ring_mask\<close> or in
  a difference of two indices, and the differences the code takes are shown below never
  to go below zero from the states the program reaches.
\<close>

type_synonym byte = "8 word"
type_synonym u32 = "32 word"

text \<open>\<^verbatim>\<open>#define RING_SIZE ((size_t)1 << 8)\<close>\<close>

definition RING_SIZE :: nat where
  "RING_SIZE = push_bit 8 1"

text \<open>\<^verbatim>\<open>CHAR_BIT\<close> of \<open>limits.h\<close>, the length of the group array \<open>ctx.m\<close>.\<close>

definition CHAR_BIT :: nat where
  "CHAR_BIT = 8"

text \<open>\<^verbatim>\<open>return (v << 1) | (v >> 31);\<close>\<close>

definition rol :: "u32 \<Rightarrow> u32" where
  "rol v = push_bit 1 v OR drop_bit 31 v"

section \<open>Rings\<close>

text \<open>\<^verbatim>\<open>struct ring { size_t hd; size_t tl; }\<close> (the fields carry a suffix: \<open>hd\<close> and
  \<open>tl\<close> are the list functions of HOL).\<close>

record ring =
  hd_r :: nat
  tl_r :: nat

definition ring_size :: "ring \<Rightarrow> nat" where
  "ring_size r = hd_r r - tl_r r"

definition ring_capacity :: "ring \<Rightarrow> nat" where
  "ring_capacity r = RING_SIZE - ring_size r"

definition ring_mask :: "nat \<Rightarrow> nat" where
  "ring_mask val = val AND (push_bit 1 RING_SIZE - 1)"

definition ring_run :: "ring \<Rightarrow> nat" where
  "ring_run r = push_bit 1 RING_SIZE - ring_mask (hd_r r)"

section \<open>The sliding window\<close>

text \<open>\<^verbatim>\<open>struct wnd { struct ring dictionary; struct ring lookahead; uint8_t bf[RING_SIZE << 1]; }\<close>.
  The buffer is a function of the physical index; the code reaches it through
  \<open>ring_mask\<close> only, so every index it uses is below \<open>2 * RING_SIZE\<close>.\<close>

record wnd =
  dictionary :: ring
  lookahead :: ring
  bf :: "nat \<Rightarrow> byte"

definition wnd_init :: "wnd \<Rightarrow> wnd" where
  "wnd_init w = w\<lparr>dictionary := \<lparr>hd_r = 0, tl_r = 0\<rparr>, lookahead := \<lparr>hd_r = 0, tl_r = 0\<rparr>\<rparr>"

definition wnd_shift :: "wnd \<Rightarrow> nat \<Rightarrow> wnd" where
  "wnd_shift w n =
     (let c = ring_capacity (dictionary w) in
      w\<lparr>dictionary :=
          \<lparr>hd_r = hd_r (dictionary w) + n,
           tl_r = tl_r (dictionary w) + (if n > c then n - c else 0)\<rparr>,
        lookahead := (lookahead w)\<lparr>tl_r := tl_r (lookahead w) + n\<rparr>\<rparr>)"

section \<open>Byte sources and sinks\<close>

text \<open>
  The \<open>FILE\<close> streams.  A source delivers its \<open>pending\<close> bytes and then either reports the
  end of the file (\<open>rerrno = None\<close>) or a read error that sets the stream's error
  indicator and \<open>errno\<close> (\<open>rerrno = Some e\<close>).  \<open>fread\<close> returns fewer bytes than asked
  only there, so the \<open>continue\<close> of \<open>wnd_read\<close> after a short read that is neither is not
  reached in this model.

  A sink appends the bytes written to \<open>written\<close>.  \<open>room = Some k\<close> makes the write after
  \<open>k\<close> more successful ones fail, \<open>room = None\<close> never fails; \<open>werrno\<close> tells whether a
  failing write sets the error indicator and \<open>errno\<close>.

  The functions return \<open>int\<close> in C: \<open>0\<close>, \<open>EOF\<close>, \<open>EIO\<close> or the \<open>errno\<close> of a failed
  call.  \<open>status\<close> keeps them apart; \<open>Err\<close> is the return of an error number, which
  POSIX requires to be positive.
\<close>

datatype error = EIO | Errno nat

datatype status = OK | EOF | Err error

text \<open>The \<open>int\<close> that a function returns: 0, \<open>EOF\<close> (which is \<open>-1\<close>), or an error number.
  \<open>EIO\<close> is 5 on Linux; the proofs use only that it is not 0.\<close>

fun errno_of :: "error \<Rightarrow> nat" where
  "errno_of EIO = 5"
| "errno_of (Errno e) = e"

fun ret_int :: "status \<Rightarrow> int" where
  "ret_int OK = 0"
| "ret_int EOF = - 1"
| "ret_int (Err e) = int (errno_of e)"

record source =
  pending :: "byte list"
  rerrno :: "nat option"

record sink =
  written :: "byte list"
  room :: "nat option"
  werrno :: "nat option"

definition fread :: "nat \<Rightarrow> source \<Rightarrow> byte list \<times> source" where
  "fread u i = (take u (pending i), i\<lparr>pending := drop u (pending i)\<rparr>)"

definition getc_unlocked :: "source \<Rightarrow> (byte \<times> source) option" where
  "getc_unlocked i =
     (case pending i of [] \<Rightarrow> None | b # bs \<Rightarrow> Some (b, i\<lparr>pending := bs\<rparr>))"

text \<open>\<open>feof\<close> after a read that fell short.\<close>

definition feof :: "source \<Rightarrow> bool" where
  "feof i = (rerrno i = None)"

text \<open>\<^verbatim>\<open>if (!ferror(i)) errno = EIO; return errno;\<close> on the source, after a failed read.\<close>

definition read_errno :: "source \<Rightarrow> error" where
  "read_errno i = (case rerrno i of None \<Rightarrow> EIO | Some e \<Rightarrow> Errno e)"

definition putc_unlocked :: "byte \<Rightarrow> sink \<Rightarrow> sink option" where
  "putc_unlocked b s =
     (case room s of
        None \<Rightarrow> Some (s\<lparr>written := written s @ [b]\<rparr>)
      | Some k \<Rightarrow>
          if k = 0 then None
          else Some (s\<lparr>written := written s @ [b], room := Some (k - 1)\<rparr>))"

text \<open>\<^verbatim>\<open>if (!ferror(o)) errno = EIO; return errno;\<close> on the sink, after a failed write.\<close>

definition write_errno :: "sink \<Rightarrow> error" where
  "write_errno s = (case werrno s of None \<Rightarrow> EIO | Some e \<Rightarrow> Errno e)"

text \<open>\<open>fread\<close> stores the bytes it read at \<open>bf + base\<close>.\<close>

definition store :: "(nat \<Rightarrow> byte) \<Rightarrow> nat \<Rightarrow> byte list \<Rightarrow> nat \<Rightarrow> byte" where
  "store b base xs = (\<lambda>k. if base \<le> k \<and> k < base + length xs then xs ! (k - base) else b k)"

text \<open>One pass of the \<open>for (;;)\<close> of \<open>wnd_read\<close>: \<open>Inl\<close> is a return, \<open>Inr\<close> the state
  the loop goes round with.\<close>

definition wnd_read_step :: "wnd \<Rightarrow> source \<Rightarrow> (status \<times> wnd \<times> source) + (wnd \<times> source)" where
  "wnd_read_step w i =
     (let r = ring_run (lookahead w);
          c = ring_capacity (lookahead w);
          u = (if c > r then r else c);
          (xs, i') = fread u i;
          n = length xs;
          w' = w\<lparr>bf := store (bf w) (ring_mask (hd_r (lookahead w))) xs,
                 lookahead := (lookahead w)\<lparr>hd_r := hd_r (lookahead w) + n\<rparr>\<rparr>
      in if n \<noteq> u then
           (if feof i' then Inl (EOF, w', i') else Inl (Err (read_errno i'), w', i'))
         else if c = u then Inl (OK, w', i')
         else Inr (w', i'))"

function wnd_read :: "wnd \<Rightarrow> source \<Rightarrow> status \<times> wnd \<times> source" where
  "wnd_read w i =
     (case wnd_read_step w i of
        Inl res \<Rightarrow> res
      | Inr (w', i') \<Rightarrow> wnd_read w' i')"
  by pat_completeness auto

lemma ring_mask_mod: "ring_mask v = v mod 512"
proof -
  have "push_bit 1 RING_SIZE - 1 = (mask 9 :: nat)"
    by (simp add: RING_SIZE_def mask_eq_exp_minus_1)
  then show ?thesis
    by (simp add: ring_mask_def take_bit_eq_mod flip: take_bit_eq_mask)
qed

lemma RING_SIZE_256: "RING_SIZE = 256"
  by (simp add: RING_SIZE_def)

lemma ring_run_eq: "ring_run r = 512 - hd_r r mod 512"
  by (simp add: ring_run_def ring_mask_mod RING_SIZE_256)

lemma wnd_read_step_Inr:
  assumes "wnd_read_step w i = Inr (w', i')"
  shows "ring_mask (hd_r (lookahead w)) \<noteq> 0 \<and> ring_mask (hd_r (lookahead w')) = 0"
proof -
  let ?h = "hd_r (lookahead w)"
  let ?r = "ring_run (lookahead w)"
  let ?c = "ring_capacity (lookahead w)"
  from assms have run: "?r < ?c" and hd': "hd_r (lookahead w') = ?h + ?r"
    by (auto simp: wnd_read_step_def Let_def fread_def split: if_splits prod.splits)
  have "?c \<le> 256" by (simp add: ring_capacity_def RING_SIZE_256)
  with run have "?r < 256" by simp
  then have m: "?h mod 512 \<noteq> 0" by (simp add: ring_run_eq)
  have "(?h + (512 - ?h mod 512)) mod 512 = 0"
    by (metis add_diff_inverse_nat le_add_diff_inverse2 less_imp_le mod_add_left_eq
        mod_less_divisor mod_self not_less zero_less_numeral)
  with m hd' show ?thesis by (simp add: ring_mask_mod ring_run_eq)
qed

termination wnd_read
proof (relation "measure (\<lambda>(w, i). if ring_mask (hd_r (lookahead w)) = 0 then 0 else 1)")
  show "wf (measure (\<lambda>(w, i). if ring_mask (hd_r (lookahead w)) = 0 then 0 else 1))"
    by simp
next
  fix w i x2 w' i'
  assume "wnd_read_step w i = Inr x2" "(w', i') = x2"
  then have "wnd_read_step w i = Inr (w', i')" by simp
  from wnd_read_step_Inr [OF this]
  show "((w', i'), (w, i)) \<in> measure (\<lambda>(w, i). if ring_mask (hd_r (lookahead w)) = 0 then 0 else 1)"
    by simp
qed


section \<open>KMP search\<close>

text \<open>
  The failure table \<open>t\<close> of \<open>kmp_init\<close> is the local array \<open>a\<close> of \<open>kmp_search\<close>, which
  the C code does not initialise.  It is a map: an entry is \<open>None\<close> until the code writes
  it, and a read of an entry that was never written has no defined value, so the search
  then has no result (\<open>None\<close>).  The entries are \<open>uint8_t\<close>: a stored length is cut to
  eight bits.
\<close>

type_synonym table = "nat \<rightharpoonup> byte"

text \<open>One pass of the body of the \<open>do ... while\<close> of \<open>kmp_init\<close>, on \<open>(t, i, j)\<close>.\<close>

definition kmp_init_step :: "wnd \<Rightarrow> table \<times> nat \<times> nat \<Rightarrow> (table \<times> nat \<times> nat) option" where
  "kmp_init_step w s =
     (case s of (t, i, j) \<Rightarrow>
        let ltl = tl_r (lookahead w) in
        if bf w (ring_mask i) = bf w (ring_mask j) then
          Some (t(j - ltl \<mapsto> of_nat (i + 1 - ltl)), i + 1, j + 1)
        else if i = ltl then
          Some (t(j - ltl \<mapsto> 0), i, j + 1)
        else
          (case t (i - ltl - 1) of
             None \<Rightarrow> None
           | Some v \<Rightarrow> Some (t, ltl + unat v, j)))"

partial_function (option) kmp_init_loop :: "wnd \<Rightarrow> table \<times> nat \<times> nat \<Rightarrow> table option" where
  "kmp_init_loop w s =
     (case kmp_init_step w s of
        None \<Rightarrow> None
      | Some (t, i, j) \<Rightarrow>
          if j \<noteq> hd_r (lookahead w) then kmp_init_loop w (t, i, j) else Some t)"

declare kmp_init_loop.simps [code]

definition kmp_init :: "table \<Rightarrow> wnd \<Rightarrow> table option" where
  "kmp_init t w =
     (let i = tl_r (lookahead w); j = i + 1 in
      if ring_size (lookahead w) < 2 then Some t
      else kmp_init_loop w (t(0 \<mapsto> 0), i, j))"

text \<open>\<^verbatim>\<open>struct pair { size_t o; size_t l; }\<close>\<close>

record pair =
  o_p :: nat
  l_p :: nat

text \<open>One pass of the \<open>while\<close> of \<open>kmp_search\<close>, on \<open>(p, i, j)\<close>, the loop test included:
  \<open>Inl\<close> is the pair returned, \<open>Inr\<close> the state the loop goes round with.\<close>

definition kmp_search_step ::
  "wnd \<Rightarrow> table \<Rightarrow> pair \<times> nat \<times> nat \<Rightarrow> (pair + pair \<times> nat \<times> nat) option" where
  "kmp_search_step w a s =
     (case s of (p, i, j) \<Rightarrow>
        if j \<noteq> hd_r (lookahead w) then
          let l = i - tl_r (lookahead w);
              off = j - tl_r (dictionary w) - l
          in
          if off = ring_size (dictionary w) then Some (Inl p)
          else if bf w (ring_mask i) = bf w (ring_mask j) then
            (if i + 1 = hd_r (lookahead w) then Some (Inl \<lparr>o_p = off, l_p = l + 1\<rparr>)
             else Some (Inr (p, i + 1, j + 1)))
          else if i = tl_r (lookahead w) then Some (Inr (p, i, j + 1))
          else
            (case a (l - 1) of
               None \<Rightarrow> None
             | Some v \<Rightarrow>
                 Some (Inr (if l > l_p p then \<lparr>o_p = off, l_p = l\<rparr> else p,
                            tl_r (lookahead w) + unat v, j)))
        else Some (Inl p))"

partial_function (option) kmp_search_loop ::
  "wnd \<Rightarrow> table \<Rightarrow> pair \<times> nat \<times> nat \<Rightarrow> pair option" where
  "kmp_search_loop w a s =
     (case kmp_search_step w a s of
        None \<Rightarrow> None
      | Some (Inl p) \<Rightarrow> Some p
      | Some (Inr s') \<Rightarrow> kmp_search_loop w a s')"

declare kmp_search_loop.simps [code]

definition kmp_search :: "wnd \<Rightarrow> pair option" where
  "kmp_search w =
     (case kmp_init Map.empty w of
        None \<Rightarrow> None
      | Some a \<Rightarrow>
          kmp_search_loop w a (\<lparr>o_p = 0, l_p = 0\<rparr>, tl_r (lookahead w), tl_r (dictionary w)))"

section \<open>The match selector\<close>

text \<open>\<^verbatim>\<open>struct match { union { uint8_t o; uint8_t v; }; uint8_t l; }\<close>: the members \<open>o\<close>
  and \<open>v\<close> of the union are one byte.\<close>

record match =
  o_m :: byte
  l_m :: byte

abbreviation v_m :: "match \<Rightarrow> byte" where
  "v_m \<equiv> o_m"

text \<open>
  \<open>match\<close> returns the token and the shifted window.  The stored offset is the \<open>size_t\<close>
  difference \<open>ring_size(dictionary) - p.o - 1\<close> cast to \<open>uint8_t\<close>; the cast of a
  difference is the difference of the casts, which is how it is written here, so that a
  difference that wrapped would be cut as in C.  \<open>(uint8_t)p.l - 1\<close> assigned to the
  \<open>uint8_t\<close> member is the cast of \<open>p.l\<close> minus one, modulo 256.
\<close>

definition match :: "wnd \<Rightarrow> (match \<times> wnd) option" where
  "match w =
     (case kmp_search w of
        None \<Rightarrow> None
      | Some p \<Rightarrow>
          let tl = tl_r (lookahead w) in
          if l_p p < 2 \<or>
             l_p p = 2 \<and> ring_size (lookahead w) > 3 \<and>
               bf w (ring_mask (tl + 2)) = bf w (ring_mask tl) \<and>
               (bf w (ring_mask (tl + 3)) = bf w (ring_mask tl) \<or>
                bf w (ring_mask (tl + 3)) = bf w (ring_mask (tl_r (dictionary w) + l_p p)))
          then Some (\<lparr>o_m = bf w (ring_mask tl), l_m = 0\<rparr>, wnd_shift w 1)
          else Some (\<lparr>o_m = of_nat (ring_size (dictionary w)) - of_nat (o_p p) - 1,
                       l_m = of_nat (l_p p) - 1\<rparr>,
                     wnd_shift w (l_p p)))"

section \<open>Encoder framing\<close>

text \<open>The bytes of one token, the body of the \<open>do ... while\<close> of \<open>encode\<close>; \<open>Inl\<close> is the
  jump to \<open>fail\<close>.\<close>

definition encode_token :: "match \<Rightarrow> sink \<Rightarrow> error + sink" where
  "encode_token mt s =
     (if l_m mt = 0 then
        (case putc_unlocked (v_m mt) s of
           None \<Rightarrow> Inl (write_errno s)
         | Some s1 \<Rightarrow> Inr s1)
      else
        (case putc_unlocked (o_m mt) s of
           None \<Rightarrow> Inl (write_errno s)
         | Some s1 \<Rightarrow>
             (case putc_unlocked (l_m mt) s1 of
                None \<Rightarrow> Inl (write_errno s1)
              | Some s2 \<Rightarrow> Inr s2)))"

function encode_loop :: "(nat \<Rightarrow> match) \<Rightarrow> u32 \<Rightarrow> u32 \<Rightarrow> sink \<Rightarrow> error + sink" where
  "encode_loop m n j s =
     (case encode_token (m (unat j)) s of
        Inl e \<Rightarrow> Inl e
      | Inr s' \<Rightarrow> if j + 1 \<noteq> n then encode_loop m n (j + 1) s' else Inr s')"
  by pat_completeness auto
termination
proof (relation "measure (\<lambda>(m, n, j, s). unat (n - j - 1))")
  show "wf (measure (\<lambda>(m, n, j, s). unat (n - j - 1)))" by simp
next
  fix m :: "nat \<Rightarrow> match" and n j :: u32 and s s' :: sink
  assume "j + 1 \<noteq> n"
  then have "n - j - 1 \<noteq> 0" by (simp add: algebra_simps)
  from measure_unat [OF this] have "unat (n - (j + 1) - 1) < unat (n - j - 1)"
    by (simp add: algebra_simps)
  then show "((m, n, j + 1, s'), (m, n, j, s)) \<in> measure (\<lambda>(m, n, j, s). unat (n - j - 1))"
    by simp
qed

text \<open>\<open>encode\<close>: the control byte (\<open>putc\<close> writes its argument as an \<open>unsigned char\<close>),
  then the \<open>n\<close> tokens.\<close>

definition encode :: "(nat \<Rightarrow> match) \<Rightarrow> u32 \<Rightarrow> u32 \<Rightarrow> sink \<Rightarrow> error + sink" where
  "encode m n c s =
     (case putc_unlocked (ucast c) s of
        None \<Rightarrow> Inl (write_errno s)
      | Some s' \<Rightarrow> encode_loop m n 0 s')"

text \<open>\<^verbatim>\<open>struct ctx { unsigned n; uint32_t c; uint32_t msk; struct wnd w; struct match m[CHAR_BIT]; }\<close>\<close>

record ctx =
  n_ctx :: u32
  c_ctx :: u32
  msk_ctx :: u32
  w_ctx :: wnd
  m_ctx :: "nat \<Rightarrow> match"

definition ctx_init :: "ctx \<Rightarrow> ctx" where
  "ctx_init ctx =
     ctx\<lparr>w_ctx := wnd_init (w_ctx ctx),
         msk_ctx := push_bit 31 1 OR push_bit 23 1 OR push_bit 15 1 OR push_bit 7 1\<rparr>"

text \<open>\<open>compress_helper\<close>: \<open>Inl\<close> is the nonzero return of a failed \<open>encode\<close>, \<open>Inr\<close> the
  return of 0 with the context and the sink as they are then.\<close>

definition compress_helper :: "ctx \<Rightarrow> sink \<Rightarrow> (error + ctx \<times> sink) option" where
  "compress_helper ctx s =
     (let ctx = ctx\<lparr>msk_ctx := rol (msk_ctx ctx)\<rparr>;
          flushed =
            (if msk_ctx ctx AND 1 \<noteq> 0 then
               (if n_ctx ctx \<noteq> 0 then
                  (case encode (m_ctx ctx) (n_ctx ctx) (c_ctx ctx) s of
                     Inl e \<Rightarrow> Inl e
                   | Inr s' \<Rightarrow> Inr (ctx\<lparr>n_ctx := 0, c_ctx := 0\<rparr>, s'))
                else Inr (ctx\<lparr>c_ctx := 0\<rparr>, s))
             else Inr (ctx, s))
      in case flushed of
           Inl e \<Rightarrow> Some (Inl e)
         | Inr (ctx, s) \<Rightarrow>
             (case match (w_ctx ctx) of
                None \<Rightarrow> None
              | Some (mt, w') \<Rightarrow>
                  let ctx = ctx\<lparr>w_ctx := w', m_ctx := (m_ctx ctx)(unat (n_ctx ctx) := mt)\<rparr> in
                  Some (Inr (if l_m mt \<noteq> 0 then ctx\<lparr>c_ctx := c_ctx ctx OR msk_ctx ctx\<rparr> else ctx,
                             s))))"

section \<open>The stream driver\<close>

text \<open>The first \<open>for\<close> of \<open>compress\<close>: \<open>Inl e\<close> is \<open>return ret\<close> after a failed
  \<open>compress_helper\<close>; \<open>Inr (ret, ctx, s)\<close> is the loop left with the nonzero \<open>ret\<close> of
  \<open>wnd_read\<close>.\<close>

partial_function (option) compress_read_loop ::
  "ctx \<Rightarrow> source \<Rightarrow> sink \<Rightarrow> (error + status \<times> ctx \<times> sink) option" where
  "compress_read_loop ctx i s =
     (case wnd_read (w_ctx ctx) i of
        (ret, w', i') \<Rightarrow>
          if ret = OK then
            (case compress_helper (ctx\<lparr>w_ctx := w'\<rparr>) s of
               None \<Rightarrow> None
             | Some (Inl e) \<Rightarrow> Some (Inl e)
             | Some (Inr (ctx', s')) \<Rightarrow>
                 compress_read_loop (ctx'\<lparr>n_ctx := n_ctx ctx' + 1\<rparr>) i' s')
          else Some (Inr (ret, ctx\<lparr>w_ctx := w'\<rparr>, s)))"

declare compress_read_loop.simps [code]

text \<open>The second \<open>for\<close>: the lookahead is drained.\<close>

partial_function (option) compress_drain_loop ::
  "ctx \<Rightarrow> sink \<Rightarrow> (error + ctx \<times> sink) option" where
  "compress_drain_loop ctx s =
     (if ring_size (lookahead (w_ctx ctx)) \<noteq> 0 then
        (case compress_helper ctx s of
           None \<Rightarrow> None
         | Some (Inl e) \<Rightarrow> Some (Inl e)
         | Some (Inr (ctx', s')) \<Rightarrow> compress_drain_loop (ctx'\<lparr>n_ctx := n_ctx ctx' + 1\<rparr>) s')
      else Some (Inr (ctx, s)))"

declare compress_drain_loop.simps [code]

text \<open>\<open>compress\<close>, from the context as \<open>struct ctx ctx;\<close> leaves it (not initialised).
  \<open>Inr s\<close> is the return of 0 with the sink \<open>s\<close>, \<open>Inl e\<close> a nonzero return.\<close>

definition compress :: "ctx \<Rightarrow> source \<Rightarrow> sink \<Rightarrow> (error + sink) option" where
  "compress ctx0 i s =
     (case compress_read_loop ((ctx_init ctx0)\<lparr>n_ctx := 0\<rparr>) i s of
        None \<Rightarrow> None
      | Some (Inl e) \<Rightarrow> Some (Inl e)
      | Some (Inr (ret, ctx, s1)) \<Rightarrow>
          (case ret of
             Err e \<Rightarrow> Some (Inl e)
           | OK \<Rightarrow> Some (Inr s1)
           | EOF \<Rightarrow>
               (case compress_drain_loop ctx s1 of
                  None \<Rightarrow> None
                | Some (Inl e) \<Rightarrow> Some (Inl e)
                | Some (Inr (ctx', s2)) \<Rightarrow>
                    if n_ctx ctx' \<noteq> 0 then
                      Some (encode (m_ctx ctx') (n_ctx ctx') (c_ctx ctx') s2)
                    else Some (Inr s2))))"

section \<open>The decoder\<close>

text \<open>The \<open>do ... while (c--)\<close> of \<open>decompress\<close>: \<open>buf[m.o] = buf[(uint8_t)(m.o - m.l)]\<close>,
  the byte written to the sink, \<open>m.o++\<close>.  \<open>Inl s\<close> is the jump to \<open>writefail\<close> with the
  sink as it is then.\<close>

fun copy_loop ::
  "(byte \<Rightarrow> byte) \<Rightarrow> byte \<Rightarrow> byte \<Rightarrow> nat \<Rightarrow> sink \<Rightarrow> sink + (byte \<Rightarrow> byte) \<times> byte \<times> sink" where
  "copy_loop buf mo ml c s =
     (let buf = buf(mo := buf (mo - ml)) in
      case putc_unlocked (buf mo) s of
        None \<Rightarrow> Inl s
      | Some s' \<Rightarrow>
          if c \<noteq> 0 then copy_loop buf (mo + 1) ml (c - 1) s'
          else Inr (buf, mo + 1, s'))"

text \<open>The decoder's variables that live across tokens: \<open>buf\<close>, \<open>m.o\<close>, \<open>map\<close>, \<open>msk\<close>.\<close>

record dstate =
  buf_d :: "byte \<Rightarrow> byte"
  o_d :: byte
  map_d :: u32
  msk_d :: u32

text \<open>One pass of the \<open>while\<close> of \<open>decompress\<close>, the loop test included.  \<open>Inl (ret, s)\<close> is
  the return of the function with the sink as it is then: \<open>OK\<close> for 0, \<open>Err\<close> for the
  \<open>errno\<close> after \<open>readfail\<close> or \<open>writefail\<close>.  \<open>Inr\<close> is the state the loop goes round
  with.\<close>

definition decompress_step ::
  "dstate \<Rightarrow> source \<Rightarrow> sink \<Rightarrow> (status \<times> sink) + dstate \<times> source \<times> sink" where
  "decompress_step d i s =
     (case getc_unlocked i of
        None \<Rightarrow> Inl (if feof i then OK else Err (read_errno i), s)
      | Some (c, i1) \<Rightarrow>
          let msk = rol (msk_d d) in
          (case (if msk AND 1 \<noteq> 0 then
                   (case getc_unlocked i1 of
                      None \<Rightarrow> None
                    | Some (c', i2) \<Rightarrow> Some (ucast c, c', i2))
                 else Some (map_d d, c, i1)) of
             None \<Rightarrow> Inl (Err (read_errno i1), s)
           | Some (mp, c, i2) \<Rightarrow>
               if mp AND msk \<noteq> 0 then
                 (case getc_unlocked i2 of
                    None \<Rightarrow> Inl (Err (read_errno i2), s)
                  | Some (c2, i3) \<Rightarrow>
                      (case copy_loop (buf_d d) (o_d d) (c + 1) (unat c2) s of
                         Inl s' \<Rightarrow> Inl (Err (write_errno s'), s')
                       | Inr (buf, mo, s') \<Rightarrow>
                           Inr (\<lparr>buf_d = buf, o_d = mo, map_d = mp, msk_d = msk\<rparr>, i3, s')))
               else
                 (case putc_unlocked c s of
                    None \<Rightarrow> Inl (Err (write_errno s), s)
                  | Some s' \<Rightarrow>
                      Inr (\<lparr>buf_d = (buf_d d)(o_d d := c), o_d = o_d d + 1,
                            map_d = mp, msk_d = msk\<rparr>, i2, s'))))"

lemma getc_unlocked_length:
  "getc_unlocked i = Some (c, i') \<Longrightarrow> length (pending i') < length (pending i)"
  by (auto simp: getc_unlocked_def split: list.splits)

lemma decompress_step_length:
  assumes "decompress_step d i s = Inr (d', i', s')"
  shows "length (pending i') < length (pending i)"
proof (cases "getc_unlocked i")
  case None
  with assms show ?thesis by (simp add: decompress_step_def)
next
  case (Some a)
  then obtain c i1 where g: "getc_unlocked i = Some (c, i1)" by (cases a) auto
  then have l1: "length (pending i1) < length (pending i)" by (rule getc_unlocked_length)
  have "length (pending i') \<le> length (pending i1)"
    using assms unfolding decompress_step_def g Let_def
    by (simp split: option.splits if_splits sum.splits prod.splits)
       (auto dest!: getc_unlocked_length)
  with l1 show ?thesis by simp
qed

function decompress_loop :: "dstate \<Rightarrow> source \<Rightarrow> sink \<Rightarrow> status \<times> sink" where
  "decompress_loop d i s =
     (case decompress_step d i s of
        Inl r \<Rightarrow> r
      | Inr (d', i', s') \<Rightarrow> decompress_loop d' i' s')"
  by pat_completeness auto
termination
proof (relation "measure (\<lambda>(d, i, s). length (pending i))")
  show "wf (measure (\<lambda>(d, i, s). length (pending i)))" by simp
next
  fix d i s x2 d' y i' s'
  assume "decompress_step d i s = Inr x2" "(d', y) = x2" "(i', s') = y"
  then have "decompress_step d i s = Inr (d', i', s')" by simp
  from decompress_step_length [OF this]
  show "((d', i', s'), (d, i, s)) \<in> measure (\<lambda>(d, i, s). length (pending i))" by simp
qed

text \<open>\<open>decompress\<close>, from the contents \<open>buf0\<close> of the array \<open>buf\<close> and the value \<open>map0\<close>
  of \<open>map\<close> as their declarations leave them (not initialised); \<open>m = { 0 }\<close>.  The
  result is the value returned and the sink.\<close>

definition decompress :: "(byte \<Rightarrow> byte) \<Rightarrow> u32 \<Rightarrow> source \<Rightarrow> sink \<Rightarrow> status \<times> sink" where
  "decompress buf0 map0 i s =
     decompress_loop
       \<lparr>buf_d = buf0, o_d = 0, map_d = map0,
        msk_d = push_bit 31 1 OR push_bit 23 1 OR push_bit 15 1 OR push_bit 7 1\<rparr> i s"

section \<open>Concrete inputs\<close>

text \<open>A context, a decoder buffer, sources and a sink to run the functions on: the memory
  that C leaves uninitialised is zero here, a source ends with the end of the file, the
  sink is empty and never fails.\<close>

definition wnd_zero :: wnd where
  "wnd_zero = \<lparr>dictionary = \<lparr>hd_r = 0, tl_r = 0\<rparr>, lookahead = \<lparr>hd_r = 0, tl_r = 0\<rparr>,
                bf = (\<lambda>k. 0)\<rparr>"

definition ctx_zero :: ctx where
  "ctx_zero = \<lparr>n_ctx = 0, c_ctx = 0, msk_ctx = 0, w_ctx = wnd_zero,
                m_ctx = (\<lambda>k. \<lparr>o_m = 0, l_m = 0\<rparr>)\<rparr>"

definition buf_zero :: "byte \<Rightarrow> byte" where
  "buf_zero = (\<lambda>k. 0)"

definition source_of :: "byte list \<Rightarrow> source" where
  "source_of xs = \<lparr>pending = xs, rerrno = None\<rparr>"

definition sink_empty :: sink where
  "sink_empty = \<lparr>written = [], room = None, werrno = None\<rparr>"

section \<open>Evaluation\<close>

lemmas lzpi_eval =
  compress_def ctx_init_def wnd_init_def compress_read_loop.simps compress_drain_loop.simps
  wnd_read.simps wnd_read_step_def fread_def ring_size_def ring_capacity_def ring_mask_mod
  ring_run_eq RING_SIZE_256 kmp_init_def kmp_init_step_def kmp_init_loop.simps
  kmp_search_def kmp_search_step_def kmp_search_loop.simps match_def wnd_shift_def
  encode_def encode_token_def encode_loop.simps putc_unlocked_def rol_def Let_def store_def
  compress_helper_def feof_def decompress_def decompress_loop.simps decompress_step_def
  getc_unlocked_def read_errno_def write_errno_def
  wnd_zero_def ctx_zero_def buf_zero_def source_of_def sink_empty_def

section \<open>Window invariants\<close>

text \<open>The invariants of the window: each ring has its head at or after its tail (the
  differences \<open>hd - tl\<close> do not wrap), the rings are adjacent, and neither is larger
  than \<open>RING_SIZE\<close>.\<close>

definition wnd_inv :: "wnd \<Rightarrow> bool" where
  "wnd_inv w \<longleftrightarrow>
     tl_r (dictionary w) \<le> hd_r (dictionary w) \<and>
     tl_r (lookahead w) \<le> hd_r (lookahead w) \<and>
     hd_r (dictionary w) = tl_r (lookahead w) \<and>
     ring_size (dictionary w) \<le> RING_SIZE \<and>
     ring_size (lookahead w) \<le> RING_SIZE"

lemma wnd_inv_init: "wnd_inv (wnd_init w)"
  by (simp add: wnd_inv_def wnd_init_def ring_size_def)

lemma wnd_inv_shift:
  assumes "wnd_inv w" and "n \<le> ring_size (lookahead w)"
  shows "wnd_inv (wnd_shift w n)"
  using assms
  by (auto simp: wnd_inv_def wnd_shift_def Let_def ring_size_def ring_capacity_def
      RING_SIZE_256)

lemma wnd_read_step_frame:
  assumes "wnd_read_step w i = r"
    and "r = Inl (st, w', i') \<or> r = Inr (w', i')"
  shows "dictionary w' = dictionary w \<and> tl_r (lookahead w') = tl_r (lookahead w) \<and>
         hd_r (lookahead w) \<le> hd_r (lookahead w') \<and>
         hd_r (lookahead w') - hd_r (lookahead w) \<le> ring_capacity (lookahead w)"
  using assms
  by (auto simp: wnd_read_step_def Let_def fread_def split: if_splits)

lemma wnd_inv_read_step:
  assumes "wnd_inv w" and "wnd_read_step w i = r"
    and "r = Inl (st, w', i') \<or> r = Inr (w', i')"
  shows "wnd_inv w'"
proof -
  from wnd_read_step_frame [OF assms(2,3)]
  have d: "dictionary w' = dictionary w" and t: "tl_r (lookahead w') = tl_r (lookahead w)"
    and h: "hd_r (lookahead w) \<le> hd_r (lookahead w')"
    and c: "hd_r (lookahead w') - hd_r (lookahead w) \<le> ring_capacity (lookahead w)"
    by simp_all
  from assms(1) c h show ?thesis
    unfolding wnd_inv_def d t ring_size_def ring_capacity_def RING_SIZE_256
    by arith
qed

lemma wnd_inv_read: "wnd_inv w \<Longrightarrow> wnd_inv (fst (snd (wnd_read w i)))"
proof (induction w i rule: wnd_read.induct)
  case (1 w i)
  show ?case
  proof (cases "wnd_read_step w i")
    case (Inl res)
    obtain st w' i' where res: "res = (st, w', i')" by (cases res) auto
    from wnd_inv_read_step [OF "1.prems" Inl] res have "wnd_inv w'" by simp
    with Inl res show ?thesis by (simp del: wnd_read.simps add: wnd_read.simps [of w i])
  next
    case (Inr x)
    obtain w' i' where x: "x = (w', i')" by (cases x) auto
    from wnd_inv_read_step [OF "1.prems" Inr] x have "wnd_inv w'" by simp
    from "1.IH" [OF Inr x [symmetric] this] Inr x show ?thesis
      by (simp del: wnd_read.simps add: wnd_read.simps [of w i])
  qed
qed

text \<open>
  Claim C8.  The properties \<open>dict.hd = look.tl\<close>, \<open>dict.size \<le> W\<close> and
  \<open>look.size \<le> W\<close> (with \<open>hd \<ge> tl\<close> in both rings) hold after \<open>wnd_init\<close>, and
  every \<open>wnd_read\<close> and every \<open>wnd_shift\<close> by \<open>n \<le> look.size\<close> keeps them.
\<close>

theorem C8_window_invariants:
  "wnd_inv (wnd_init w0) \<and>
   (wnd_inv w \<longrightarrow> wnd_inv (fst (snd (wnd_read w i)))) \<and>
   (wnd_inv w \<and> n \<le> ring_size (lookahead w) \<longrightarrow> wnd_inv (wnd_shift w n))"
  using wnd_inv_init wnd_inv_read wnd_inv_shift by blast

theorem C8_window_invariants_witness:
  "wnd_inv (wnd_init wnd_zero) \<and>
   wnd_inv (fst (snd (wnd_read (wnd_init wnd_zero) (source_of [1, 2, 3])))) \<and>
   (2::nat) \<le> ring_size (lookahead (fst (snd (wnd_read (wnd_init wnd_zero) (source_of [1, 2, 3]))))) \<and>
   wnd_inv (wnd_shift (fst (snd (wnd_read (wnd_init wnd_zero) (source_of [1, 2, 3])))) 2)"
proof -
  let ?w = "fst (snd (wnd_read (wnd_init wnd_zero) (source_of [1, 2, 3])))"
  have i: "wnd_inv (wnd_init wnd_zero)" by (rule wnd_inv_init)
  have n: "(2::nat) \<le> ring_size (lookahead ?w)" by (simp add: lzpi_eval)
  from C8_window_invariants [of wnd_zero "wnd_init wnd_zero" "source_of [1, 2, 3]" 2] i
  have r: "wnd_inv ?w" by blast
  from C8_window_invariants [of wnd_zero ?w "source_of [1, 2, 3]" 2] r n
  have "wnd_inv (wnd_shift ?w 2)" by blast
  with i r n show ?thesis by blast
qed

section \<open>The ten zero bytes\<close>

text \<open>
  Claim C3, as the code has it.  Ten bytes \<open>0x00\<close> are compressed to the four bytes
  \<open>0x02, 0x00, 0x00, 0x08\<close>: the literal \<open>0x00\<close> is token 0 and the back-reference (stored
  offset \<open>0x00\<close>, stored length \<open>0x08\<close>, nine bytes) is token 1, which sets bit 1 of the
  control byte.  Decoding these four bytes gives the ten bytes \<open>0x00\<close>.  This holds for any
  contents of the uninitialised memory and any sink that does not fail.
\<close>

theorem C3_ten_zeros:
  "compress ctx0 \<lparr>pending = [0, 0, 0, 0, 0, 0, 0, 0, 0, 0], rerrno = None\<rparr>
     \<lparr>written = ws, room = None, werrno = e\<rparr>
   = Some (Inr \<lparr>written = ws @ [0x02, 0x00, 0x00, 0x08], room = None, werrno = e\<rparr>) \<and>
   decompress buf0 map0 \<lparr>pending = [0x02, 0x00, 0x00, 0x08], rerrno = None\<rparr>
     \<lparr>written = ws, room = None, werrno = e\<rparr>
   = (OK, \<lparr>written = ws @ [0, 0, 0, 0, 0, 0, 0, 0, 0, 0], room = None, werrno = e\<rparr>)"
  by (simp add: lzpi_eval)

text \<open>The vector of the claim is not what the code does: the compressed bytes are not
  \<open>0x40, 0x00, 0x00, 0x07\<close>, and these four bytes decode to three literals.\<close>

theorem C3_ten_zeros_counterexample:
  "compress ctx_zero (source_of [0, 0, 0, 0, 0, 0, 0, 0, 0, 0]) sink_empty
     \<noteq> Some (Inr (sink_empty\<lparr>written := [0x40, 0x00, 0x00, 0x07]\<rparr>)) \<and>
   decompress buf_zero 0 (source_of [0x40, 0x00, 0x00, 0x07]) sink_empty
     = (OK, sink_empty\<lparr>written := [0x00, 0x00, 0x07]\<rparr>)"
  by (simp add: lzpi_eval)

section \<open>The group buffer\<close>

text \<open>The bytes \<open>encode\<close> writes for one token: the literal, or the stored offset and the
  stored length.\<close>

definition token_bytes :: "match \<Rightarrow> byte list" where
  "token_bytes mt = (if l_m mt = 0 then [v_m mt] else [o_m mt, l_m mt])"

text \<open>
  The state of the group buffer between two calls of \<open>compress_helper\<close>, that is after
  the \<open>++ctx.n\<close> of the \<open>for\<close> loops: \<open>n\<close> tokens of the current group are stored,
  \<open>n \<le> 8\<close>, and the mask is its seed \<open>0x80808080\<close> rotated left \<open>n\<close> times.
\<close>

definition grp_inv :: "ctx \<Rightarrow> bool" where
  "grp_inv ctx \<longleftrightarrow>
     n_ctx ctx \<le> 8 \<and>
     msk_ctx ctx = (if n_ctx ctx = 0 then 0x80808080 else push_bit (unat (n_ctx ctx) - 1) 0x01010101)"

lemma u32_le8_cases:
  assumes "(cnt::u32) \<le> 8"
  shows "cnt = 8 \<or> cnt = 7 \<or> cnt = 6 \<or> cnt = 5 \<or> cnt = 4 \<or> cnt = 3 \<or> cnt = 2 \<or>
    cnt = 1 \<or> cnt = 0"
proof -
  from assms have "unat cnt \<le> 8" by (simp add: word_le_nat_alt)
  then have "unat cnt \<in> {0, 1, 2, 3, 4, 5, 6, 7, 8}" by auto
  then show ?thesis
    by (auto simp: word_unat_eq_iff)
qed

lemma grp_inv_init: "grp_inv ((ctx_init ctx0)\<lparr>n_ctx := 0\<rparr>)"
  by (simp add: grp_inv_def ctx_init_def)

lemma grp_inv_bit0:
  assumes "grp_inv ctx"
  shows "rol (msk_ctx ctx) AND 1 \<noteq> 0 \<longleftrightarrow> n_ctx ctx = 0 \<or> n_ctx ctx = 8"
proof -
  from assms have "n_ctx ctx \<le> 8" by (simp add: grp_inv_def)
  from u32_le8_cases [OF this] assms show ?thesis
    by (elim disjE) (simp_all add: grp_inv_def rol_def)
qed

lemma grp_inv_rol:
  assumes "grp_inv ctx"
  shows "rol (msk_ctx ctx) = push_bit (if n_ctx ctx = 8 then 0 else unat (n_ctx ctx)) 0x01010101"
proof -
  from assms have "n_ctx ctx \<le> 8" by (simp add: grp_inv_def)
  from u32_le8_cases [OF this] assms show ?thesis
    by (elim disjE) (simp_all add: grp_inv_def rol_def)
qed


lemma grp_inv_helper:
  assumes "grp_inv ctx" and "compress_helper ctx s = Some (Inr (ctx', s'))"
  shows "unat (n_ctx ctx') < CHAR_BIT \<and>
         n_ctx ctx' = (if n_ctx ctx = 8 then 0 else n_ctx ctx) \<and>
         msk_ctx ctx' = push_bit (unat (n_ctx ctx')) 0x01010101 \<and>
         (\<exists>mt. m_ctx ctx' = (m_ctx ctx)(unat (n_ctx ctx') := mt)) \<and>
         grp_inv (ctx'\<lparr>n_ctx := n_ctx ctx' + 1\<rparr>)"
proof -
  from assms(1) have "n_ctx ctx \<le> 8" by (simp add: grp_inv_def)
  from u32_le8_cases [OF this] show ?thesis
    using assms
    by (elim disjE)
       (auto simp: grp_inv_def compress_helper_def rol_def Let_def CHAR_BIT_def
          split: sum.splits option.splits if_splits prod.splits)
qed

lemma grp_inv_w [simp]: "grp_inv (ctx\<lparr>w_ctx := w\<rparr>) = grp_inv ctx"
  by (simp add: grp_inv_def)










section \<open>The wire format\<close>

text \<open>
  A reference decoder for the wire format, written from its description and independent
  of the rotating mask and the ring buffer of \<open>decompress\<close>: the stream is a sequence
  of groups, a control byte and up to eight tokens; token \<open>k\<close> of a group is a
  back-reference (two bytes) when bit \<open>k\<close> of the control byte is set and a literal (one
  byte) otherwise.  \<open>t\<close> counts the tokens read so far, \<open>hist\<close> is the output so far,
  behind the 256 bytes that the decoder's buffer holds at the start.
\<close>

datatype ending = Complete | AfterControl | InsideBackref

text \<open>A back-reference: \<open>n\<close> times, the byte \<open>d\<close> positions behind the end is appended.\<close>

fun copy_back :: "byte list \<Rightarrow> nat \<Rightarrow> nat \<Rightarrow> byte list" where
  "copy_back hist d 0 = hist"
| "copy_back hist d (Suc n) = copy_back (hist @ [hist ! (length hist - d)]) d n"

fun sdecode :: "nat \<Rightarrow> byte \<Rightarrow> byte list \<Rightarrow> byte list \<Rightarrow> ending \<times> byte list"
  and sdecode_token :: "nat \<Rightarrow> byte \<Rightarrow> byte list \<Rightarrow> byte list \<Rightarrow> ending \<times> byte list" where
  "sdecode t ctl hist [] = (Complete, hist)"
| "sdecode t ctl hist (b # bs) =
     (if t mod 8 = 0 then sdecode_token t b hist bs
      else sdecode_token t ctl hist (b # bs))"
| "sdecode_token t ctl hist [] = (AfterControl, hist)"
| "sdecode_token t ctl hist (c # cs) =
     (if bit ctl (t mod 8) then
        (case cs of
           [] \<Rightarrow> (InsideBackref, hist)
         | n # ds \<Rightarrow> sdecode (t + 1) ctl (copy_back hist (Suc (unat c)) (Suc (unat n))) ds)
      else sdecode (t + 1) ctl (hist @ [c]) cs)"

text \<open>The bytes \<open>xs\<close> written one by one: \<open>Inl\<close> when a write fails, with the sink as it
  is then.\<close>

fun write_all :: "byte list \<Rightarrow> sink \<Rightarrow> sink + sink" where
  "write_all [] s = Inr s"
| "write_all (x # xs) s =
     (case putc_unlocked x s of None \<Rightarrow> Inl s | Some s' \<Rightarrow> write_all xs s')"

text \<open>What the decoder returns when no write has failed, by the way the stream ends and
  by the source: \<open>re = None\<close> is the end of the file, \<open>re = Some x\<close> a read error with
  the error number \<open>x\<close>.\<close>

definition end_status :: "nat option \<Rightarrow> ending \<Rightarrow> status" where
  "end_status re e =
     (case re of
        None \<Rightarrow> (case e of Complete \<Rightarrow> OK | _ \<Rightarrow> Err EIO)
      | Some x \<Rightarrow> Err (Errno x))"

definition init_hist :: "(byte \<Rightarrow> byte) \<Rightarrow> byte list" where
  "init_hist buf0 = map (\<lambda>k. buf0 (of_nat k)) [0..<256]"

text \<open>The decoder's buffer and write index hold the last 256 bytes of \<open>hist\<close>.\<close>

definition buf_inv :: "(byte \<Rightarrow> byte) \<Rightarrow> byte \<Rightarrow> byte list \<Rightarrow> bool" where
  "buf_inv buf mo hist \<longleftrightarrow>
     256 \<le> length hist \<and> mo = of_nat (length hist) \<and>
     (\<forall>d. 1 \<le> d \<and> d \<le> 256 \<longrightarrow> buf (mo - of_nat d) = hist ! (length hist - d))"

text \<open>The decoder's variables after \<open>t\<close> tokens of a stream whose current control byte
  is \<open>ctl\<close>: the mask has been rotated \<open>t\<close> times.\<close>

definition dec_inv :: "nat \<Rightarrow> byte \<Rightarrow> dstate \<Rightarrow> byte list \<Rightarrow> bool" where
  "dec_inv t ctl d hist \<longleftrightarrow>
     msk_d d = push_bit ((t + 7) mod 8) 0x01010101 \<and>
     (t mod 8 \<noteq> 0 \<longrightarrow> map_d d = ucast ctl) \<and>
     buf_inv (buf_d d) (o_d d) hist"

lemma lt8_cases: "(j::nat) < 8 \<Longrightarrow> j \<in> {0, 1, 2, 3, 4, 5, 6, 7}"
  by auto

lemma rol_sel:
  assumes "j < 8"
  shows "rol (push_bit j (0x01010101::u32)) = push_bit ((j + 1) mod 8) 0x01010101"
  using lt8_cases [OF assms] by (auto simp: rol_def)

lemma sel_bit0:
  assumes "j < 8"
  shows "(push_bit j (0x01010101::u32) AND 1 \<noteq> 0) = (j = 0)"
  using lt8_cases [OF assms] by auto

lemma low8: "(ucast (c::byte) :: u32) AND m = ucast c AND (m AND 255)"
proof -
  have "(ucast c :: u32) = ucast c AND mask 8"
    by (rule bit_word_eqI) (auto simp: bit_simps dest: bit_imp_le_length)
  then have "(ucast c :: u32) AND m = (ucast c AND mask 8) AND m" by simp
  also have "\<dots> = ucast c AND (m AND mask 8)" by (simp add: ac_simps)
  finally show ?thesis by (simp add: mask_eq_exp_minus_1)
qed

lemma sel_bit:
  assumes "j < 8"
  shows "((ucast (c::byte) :: u32) AND push_bit j 0x01010101 \<noteq> 0) = bit c j"
proof -
  have "push_bit j (0x01010101::u32) AND 255 = push_bit j 1"
    using lt8_cases [OF assms] by auto
  then have "(ucast c :: u32) AND push_bit j 0x01010101 = ucast c AND push_bit j 1"
    by (simp add: low8 [of c "push_bit j 0x01010101"])
  moreover have "((ucast c :: u32) AND push_bit j 1 \<noteq> 0) = bit (ucast c :: u32) j"
    by (simp add: bit_iff_and_push_bit_not_eq_0)
  moreover have "bit (ucast c :: u32) j = bit c j"
    using assms by (simp add: bit_simps)
  ultimately show ?thesis by simp
qed

lemma write_all_append:
  "write_all (xs @ ys) s =
     (case write_all xs s of Inl f \<Rightarrow> Inl f | Inr s' \<Rightarrow> write_all ys s')"
  by (induction xs arbitrary: s) (auto split: option.splits)

lemma write_all_never_fails:
  "room s = None \<Longrightarrow> write_all xs s = Inr (s\<lparr>written := written s @ xs\<rparr>)"
  by (induction xs arbitrary: s) (auto simp: putc_unlocked_def)

lemma putc_unlocked_werrno:
  "putc_unlocked b s = Some s' \<Longrightarrow> werrno s' = werrno s"
  by (auto simp: putc_unlocked_def split: option.splits if_splits)

lemma write_all_werrno:
  "write_all xs s = r \<Longrightarrow> r = Inl s' \<or> r = Inr s' \<Longrightarrow> werrno s' = werrno s"
  by (induction xs arbitrary: s) (auto split: option.splits dest: putc_unlocked_werrno)

lemma length_copy_back [simp]: "length (copy_back hist d n) = length hist + n"
  by (induction n arbitrary: hist) auto

lemma copy_back_ex: "\<exists>ys. copy_back hist d n = hist @ ys"
proof (induction n arbitrary: hist)
  case 0
  show ?case by simp
next
  case (Suc n)
  from Suc [of "hist @ [hist ! (length hist - d)]"] show ?case by auto
qed

lemma copy_back_drop: "hist @ drop (length hist) (copy_back hist d n) = copy_back hist d n"
  using copy_back_ex [of hist d n] by auto

lemma copy_back_Suc_drop:
  "drop (length hist) (copy_back hist d (Suc n)) =
     hist ! (length hist - d) # drop (Suc (length hist)) (copy_back hist d (Suc n))"
proof -
  let ?h = "hist @ [hist ! (length hist - d)]"
  obtain ys where ys: "copy_back ?h d n = ?h @ ys" using copy_back_ex by blast
  then show ?thesis by simp
qed

lemma byte_of_nat_neq_0: "0 < k \<Longrightarrow> k < 256 \<Longrightarrow> (of_nat k :: byte) \<noteq> 0"
proof
  assume k: "0 < k" "k < 256" and z: "(of_nat k :: byte) = 0"
  from k have "unat (of_nat k :: byte) = k" by (simp add: unat_of_nat)
  with z k show False by simp
qed

lemma buf_invD:
  "buf_inv buf mo hist \<Longrightarrow> 1 \<le> d \<Longrightarrow> d \<le> 256 \<Longrightarrow>
     buf (mo - of_nat d) = hist ! (length hist - d)"
  unfolding buf_inv_def by blast

lemma buf_inv_length: "buf_inv buf mo hist \<Longrightarrow> 256 \<le> length hist"
  unfolding buf_inv_def by blast

lemma buf_inv_snoc:
  assumes "buf_inv buf mo hist"
  shows "buf_inv (buf(mo := b)) (mo + 1) (hist @ [b])"
  unfolding buf_inv_def
proof (intro conjI allI impI)
  from assms show "256 \<le> length (hist @ [b])" by (simp add: buf_inv_def)
  from assms show "mo + 1 = word_of_nat (length (hist @ [b]))" by (simp add: buf_inv_def)
next
  fix d :: nat
  assume d: "1 \<le> d \<and> d \<le> 256"
  then obtain k where k: "d = Suc k" and k256: "k < 256" by (cases d) auto
  have e: "mo + 1 - word_of_nat d = mo - word_of_nat k"
    unfolding k by simp
  have idx: "length (hist @ [b]) - d = length hist - k"
    unfolding k by simp
  show "(buf(mo := b)) (mo + 1 - word_of_nat d) = (hist @ [b]) ! (length (hist @ [b]) - d)"
  proof (cases "k = 0")
    case True
    then show ?thesis unfolding e idx by simp
  next
    case False
    then have "(word_of_nat k :: byte) \<noteq> 0"
      using k256 by (intro byte_of_nat_neq_0) simp_all
    then have ne: "mo - word_of_nat k \<noteq> mo" by simp
    from False k256 have "1 \<le> k" "k \<le> 256" by simp_all
    with assms have "buf (mo - of_nat k) = hist ! (length hist - k)"
      by (rule buf_invD)
    moreover from buf_inv_length [OF assms] False have "length hist - k < length hist"
      by arith
    ultimately show ?thesis unfolding e idx using ne by (simp add: nth_append)
  qed
qed

text \<open>The buffer after \<open>n\<close> passes of the copy loop.\<close>

primrec buf_after :: "(byte \<Rightarrow> byte) \<Rightarrow> byte \<Rightarrow> byte \<Rightarrow> nat \<Rightarrow> byte \<Rightarrow> byte" where
  "buf_after buf mo ml 0 = buf"
| "buf_after buf mo ml (Suc n) = buf_after (buf(mo := buf (mo - ml))) (mo + 1) ml n"

lemma buf_inv_after:
  assumes "buf_inv buf mo hist" and "1 \<le> d" and "d \<le> 256"
  shows "buf_inv (buf_after buf mo (of_nat d) n) (mo + of_nat n) (copy_back hist d n)"
  using assms(1)
proof (induction n arbitrary: buf mo hist)
  case 0
  then show ?case by simp
next
  case (Suc n)
  from Suc.prems assms(2,3) have b: "buf (mo - of_nat d) = hist ! (length hist - d)"
    by (rule buf_invD)
  from Suc.prems have "buf_inv (buf(mo := hist ! (length hist - d))) (mo + 1)
      (hist @ [hist ! (length hist - d)])"
    by (rule buf_inv_snoc)
  from Suc.IH [OF this] have "buf_inv
      (buf_after (buf(mo := hist ! (length hist - d))) (mo + 1) (of_nat d) n)
      (mo + 1 + of_nat n) (copy_back (hist @ [hist ! (length hist - d)]) d n)" .
  moreover have "mo + of_nat (Suc n) = mo + 1 + of_nat n" by simp
  ultimately show ?case by (simp only: buf_after.simps copy_back.simps b)
qed

lemma copy_loop_refines:
  assumes "buf_inv buf mo hist" and "1 \<le> d" and "d \<le> 256"
  shows "copy_loop buf mo (of_nat d) c s =
     (case write_all (drop (length hist) (copy_back hist d (Suc c))) s of
        Inl f \<Rightarrow> Inl f
      | Inr s' \<Rightarrow> Inr (buf_after buf mo (of_nat d) (Suc c), mo + of_nat (Suc c), s'))"
  using assms(1)
proof (induction c arbitrary: buf mo hist s)
  case 0
  let ?b = "hist ! (length hist - d)"
  from "0.prems" assms(2,3) have b: "buf (mo - of_nat d) = ?b" by (rule buf_invD)
  show ?case
    by (simp add: b Let_def split: option.splits)
next
  case (Suc c)
  let ?b = "hist ! (length hist - d)"
  let ?h = "hist @ [?b]"
  let ?buf = "buf(mo := ?b)"
  from Suc.prems assms(2,3) have b: "buf (mo - of_nat d) = ?b" by (rule buf_invD)
  have inv: "buf_inv ?buf (mo + 1) ?h"
    using Suc.prems by (rule buf_inv_snoc)
  have dr: "drop (length hist) (copy_back hist d (Suc (Suc c))) =
      ?b # drop (length ?h) (copy_back ?h d (Suc c))"
    using copy_back_Suc_drop [of hist d "Suc c"] by simp
  have lhs: "copy_loop buf mo (of_nat d) (Suc c) s =
      (case putc_unlocked ?b s of None \<Rightarrow> Inl s
       | Some s' \<Rightarrow> copy_loop ?buf (mo + 1) (of_nat d) c s')"
    by (simp add: b Let_def del: copy_loop.simps add: copy_loop.simps [of buf mo _ "Suc c"]
        split: option.splits)
  have ba: "buf_after buf mo (of_nat d) (Suc (Suc c)) = buf_after ?buf (mo + 1) (of_nat d) (Suc c)"
    by (simp add: b)
  have mo: "mo + of_nat (Suc (Suc c)) = mo + 1 + of_nat (Suc c)"
    by simp
  show ?case
    unfolding lhs dr ba mo write_all.simps
    by (simp only: Suc.IH [OF inv] split: option.splits) simp
qed


lemma dec_inv_rol:
  assumes "dec_inv t ctl d hist"
  shows "rol (msk_d d) = push_bit (t mod 8) 0x01010101"
proof -
  have "((t + 7) mod 8 + 1) mod 8 = t mod 8" by presburger
  with rol_sel [of "(t + 7) mod 8"] assms show ?thesis by (simp add: dec_inv_def)
qed

text \<open>The pass of the decoder loop on a state that has read \<open>t\<close> tokens, by the bytes
  that are pending.\<close>

definition token_step ::
  "nat \<Rightarrow> byte \<Rightarrow> dstate \<Rightarrow> source \<Rightarrow> sink \<Rightarrow> byte \<Rightarrow> byte list \<Rightarrow>
     (status \<times> sink) + dstate \<times> source \<times> sink" where
  "token_step t ctl d i s c cs =
     (if bit ctl (t mod 8) then
        (case cs of
           [] \<Rightarrow> Inl (end_status (rerrno i) InsideBackref, s)
         | n # ds \<Rightarrow>
             (case copy_loop (buf_d d) (o_d d) (c + 1) (unat n) s of
                Inl f \<Rightarrow> Inl (Err (write_errno f), f)
              | Inr (buf, mo, s') \<Rightarrow>
                  Inr (\<lparr>buf_d = buf, o_d = mo, map_d = ucast ctl,
                        msk_d = push_bit (t mod 8) 0x01010101\<rparr>, i\<lparr>pending := ds\<rparr>, s')))
      else
        (case putc_unlocked c s of
           None \<Rightarrow> Inl (Err (write_errno s), s)
         | Some s' \<Rightarrow>
             Inr (\<lparr>buf_d = (buf_d d)(o_d d := c), o_d = o_d d + 1, map_d = ucast ctl,
                   msk_d = push_bit (t mod 8) 0x01010101\<rparr>, i\<lparr>pending := cs\<rparr>, s')))"

lemma read_errno_end:
  "e \<noteq> Complete \<Longrightarrow> Err (read_errno i) = end_status (rerrno i) e"
  by (simp add: read_errno_def end_status_def split: option.splits ending.splits)

lemma decompress_step_end:
  assumes "pending i = []"
  shows "decompress_step d i s = Inl (end_status (rerrno i) Complete, s)"
  using assms
  by (simp add: decompress_step_def getc_unlocked_def feof_def read_errno_def end_status_def
      split: option.splits)

lemma decompress_step_control:
  assumes inv: "dec_inv t ctl d hist"
    and t: "t mod 8 = 0" and p: "pending i = b # bs"
  shows "decompress_step d i s =
     (case bs of [] \<Rightarrow> Inl (end_status (rerrno i) AfterControl, s)
      | c # cs \<Rightarrow> token_step t b d i s c cs)"
proof -
  note r = dec_inv_rol [OF inv]
  have b0: "rol (msk_d d) AND 1 \<noteq> 0"
    unfolding r using sel_bit0 [of "t mod 8"] t by simp
  have g: "getc_unlocked i = Some (b, i\<lparr>pending := bs\<rparr>)"
    using p by (simp add: getc_unlocked_def)
  show ?thesis
  proof (cases bs)
    case Nil
    then have "getc_unlocked (i\<lparr>pending := bs\<rparr>) = None" by (simp add: getc_unlocked_def)
    with g b0 Nil show ?thesis
      by (simp add: decompress_step_def Let_def read_errno_def end_status_def
          split: option.splits)
  next
    case (Cons c cs)
    then have g2: "getc_unlocked (i\<lparr>pending := bs\<rparr>) = Some (c, i\<lparr>pending := cs\<rparr>)"
      by (simp add: getc_unlocked_def)
    have sel: "((ucast b :: u32) AND rol (msk_d d) \<noteq> 0) = bit b (t mod 8)"
      unfolding r by (rule sel_bit) simp
    show ?thesis
    proof (cases "bit b (t mod 8)")
      case True
      with sel have s1: "(ucast b :: u32) AND rol (msk_d d) \<noteq> 0" by simp
      show ?thesis
      proof (cases cs)
        case Nil
        then have "getc_unlocked (i\<lparr>pending := cs\<rparr>) = None" by (simp add: getc_unlocked_def)
        with g g2 b0 s1 Cons Nil True show ?thesis
          by (simp add: decompress_step_def Let_def read_errno_def token_step_def
              end_status_def split: option.splits)
      next
        case (Cons n ds)
        then have g3: "getc_unlocked (i\<lparr>pending := cs\<rparr>) = Some (n, i\<lparr>pending := ds\<rparr>)"
          by (simp add: getc_unlocked_def)
        from g g2 g3 b0 s1 \<open>bs = c # cs\<close> Cons True show ?thesis
          by (simp add: decompress_step_def Let_def token_step_def r del: copy_loop.simps
              split: sum.splits)
      qed
    next
      case False
      with sel have s0: "(ucast b :: u32) AND rol (msk_d d) = 0" by simp
      from g g2 b0 s0 Cons False show ?thesis
        by (simp add: decompress_step_def Let_def token_step_def r split: option.splits)
    qed
  qed
qed

lemma decompress_step_token:
  assumes inv: "dec_inv t ctl d hist"
    and t: "t mod 8 \<noteq> 0" and p: "pending i = c # cs"
  shows "decompress_step d i s = token_step t ctl d i s c cs"
proof -
  note r = dec_inv_rol [OF inv]
  from inv t have mp: "map_d d = ucast ctl" by (simp add: dec_inv_def)
  have b0: "rol (msk_d d) AND 1 = 0"
    unfolding r using sel_bit0 [of "t mod 8"] t by simp
  have g: "getc_unlocked i = Some (c, i\<lparr>pending := cs\<rparr>)"
    using p by (simp add: getc_unlocked_def)
  have sel: "((ucast ctl :: u32) AND rol (msk_d d) \<noteq> 0) = bit ctl (t mod 8)"
    unfolding r by (rule sel_bit) simp
  show ?thesis
  proof (cases "bit ctl (t mod 8)")
    case True
    with sel have s1: "(ucast ctl :: u32) AND rol (msk_d d) \<noteq> 0" by simp
    show ?thesis
    proof (cases cs)
      case Nil
      then have "getc_unlocked (i\<lparr>pending := cs\<rparr>) = None" by (simp add: getc_unlocked_def)
      with g b0 s1 Nil True mp show ?thesis
        by (simp add: decompress_step_def Let_def read_errno_def token_step_def
            end_status_def split: option.splits)
    next
      case (Cons n ds)
      then have g3: "getc_unlocked (i\<lparr>pending := cs\<rparr>) = Some (n, i\<lparr>pending := ds\<rparr>)"
        by (simp add: getc_unlocked_def)
      from g g3 b0 s1 Cons True mp show ?thesis
        by (simp add: decompress_step_def Let_def token_step_def r del: copy_loop.simps
            split: sum.splits)
    qed
  next
    case False
    with sel have s0: "(ucast ctl :: u32) AND rol (msk_d d) = 0" by simp
    from g b0 s0 False mp show ?thesis
      by (simp add: decompress_step_def Let_def token_step_def r split: option.splits)
  qed
qed


declare copy_back.simps [simp del]

lemma sdecode_extends:
  "\<exists>ys. snd (sdecode t ctl hist bs) = hist @ ys"
  "\<exists>ys. snd (sdecode_token t ctl hist bs) = hist @ ys"
proof (induction t ctl hist bs and t ctl hist bs rule: sdecode_sdecode_token.induct)
  case (1 t ctl hist)
  show ?case by simp
next
  case (2 t ctl hist b bs)
  then show ?case by simp
next
  case (3 t ctl hist)
  show ?case by simp
next
  case (4 t ctl hist c cs)
  show ?case
  proof (cases "bit ctl (t mod 8)")
    case True
    show ?thesis
    proof (cases cs)
      case Nil
      with True show ?thesis by simp
    next
      case (Cons n ds)
      from "4.IH"(1) [OF True Cons] obtain ys where
        "snd (sdecode (t + 1) ctl (copy_back hist (Suc (unat c)) (Suc (unat n))) ds) =
           copy_back hist (Suc (unat c)) (Suc (unat n)) @ ys" by blast
      moreover obtain zs where "copy_back hist (Suc (unat c)) (Suc (unat n)) = hist @ zs"
        using copy_back_ex by blast
      ultimately show ?thesis using True Cons by simp
    qed
  next
    case False
    from "4.IH"(2) [OF False] obtain ys where
      "snd (sdecode (t + 1) ctl (hist @ [c]) cs) = (hist @ [c]) @ ys" by blast
    with False show ?thesis by simp
  qed
qed

text \<open>What the decoder returns on a stream, by the reference decoder: the bytes that
  \<open>sdecode\<close> appends are written until a write fails; if none fails, the status is that of
  the stream's ending and of the source.\<close>

definition run_result ::
  "nat option \<Rightarrow> byte list \<Rightarrow> ending \<times> byte list \<Rightarrow> sink \<Rightarrow> status \<times> sink" where
  "run_result re hist r s =
     (case write_all (drop (length hist) (snd r)) s of
        Inl f \<Rightarrow> (Err (write_errno f), f)
      | Inr s' \<Rightarrow> (end_status re (fst r), s'))"

lemma run_result_extend:
  assumes "snd r = (hist @ xs) @ ys"
  shows "run_result re hist r s =
     (case write_all xs s of
        Inl f \<Rightarrow> (Err (write_errno f), f)
      | Inr s' \<Rightarrow> run_result re (hist @ xs) r s')"
  using assms by (simp add: run_result_def write_all_append split: sum.splits)

lemma run_result_backref:
  assumes "bit ctl (t mod 8)"
  shows "run_result re hist (sdecode_token t ctl hist (c # n # ds)) s =
     (case write_all (drop (length hist) (copy_back hist (Suc (unat c)) (Suc (unat n)))) s of
        Inl f \<Rightarrow> (Err (write_errno f), f)
      | Inr s' \<Rightarrow>
          run_result re (copy_back hist (Suc (unat c)) (Suc (unat n)))
            (sdecode (t + 1) ctl (copy_back hist (Suc (unat c)) (Suc (unat n))) ds) s')"
proof -
  let ?h = "copy_back hist (Suc (unat c)) (Suc (unat n))"
  let ?r = "sdecode (t + 1) ctl ?h ds"
  obtain ys where ys: "snd ?r = ?h @ ys" using sdecode_extends(1) by blast
  have h: "hist @ drop (length hist) ?h = ?h" by (rule copy_back_drop)
  from ys h have "snd ?r = (hist @ drop (length hist) ?h) @ ys" by simp
  from run_result_extend [OF this, of re s]
  have "run_result re hist ?r s =
     (case write_all (drop (length hist) ?h) s of
        Inl f \<Rightarrow> (Err (write_errno f), f)
      | Inr s' \<Rightarrow> run_result re ?h ?r s')"
    unfolding h .
  moreover have "sdecode_token t ctl hist (c # n # ds) = ?r" using assms by simp
  ultimately show ?thesis by simp
qed

lemma run_result_inside:
  assumes "bit ctl (t mod 8)"
  shows "run_result re hist (sdecode_token t ctl hist [c]) s = (end_status re InsideBackref, s)"
  using assms by (simp add: run_result_def)

lemma run_result_literal:
  assumes "\<not> bit ctl (t mod 8)"
  shows "run_result re hist (sdecode_token t ctl hist (c # cs)) s =
     (case putc_unlocked c s of
        None \<Rightarrow> (Err (write_errno s), s)
      | Some s' \<Rightarrow> run_result re (hist @ [c]) (sdecode (t + 1) ctl (hist @ [c]) cs) s')"
proof -
  let ?r = "sdecode (t + 1) ctl (hist @ [c]) cs"
  obtain ys where ys: "snd ?r = (hist @ [c]) @ ys" using sdecode_extends(1) by blast
  from run_result_extend [OF this, of re s] assms show ?thesis
    by (simp split: option.splits)
qed

lemma dec_inv_next:
  assumes "dec_inv t ctl0 d hist" and "buf_inv buf mo hist'"
  shows "dec_inv (t + 1) ctl
     \<lparr>buf_d = buf, o_d = mo, map_d = ucast ctl, msk_d = push_bit (t mod 8) 0x01010101\<rparr> hist'"
proof -
  have "(t + 1 + 7) mod 8 = t mod 8" by presburger
  with assms(2) show ?thesis by (simp add: dec_inv_def)
qed

lemma decompress_loop_refines:
  assumes "dec_inv t ctl d hist"
  shows "decompress_loop d i s = run_result (rerrno i) hist (sdecode t ctl hist (pending i)) s"
  using assms
proof (induction "length (pending i)" arbitrary: t ctl d hist i s rule: less_induct)
  case less
  note inv = less.prems
  note loop = decompress_loop.simps [of d i s]
  from inv have binv: "buf_inv (buf_d d) (o_d d) hist" by (simp add: dec_inv_def)
  have tok: "decompress_loop d i s = run_result (rerrno i) hist (sdecode_token t ctl' hist (c # cs)) s"
    if st: "decompress_step d i s = token_step t ctl' d i s c cs"
      and len: "length cs < length (pending i)"
    for ctl' c cs
  proof (cases "bit ctl' (t mod 8)")
    case True
    show ?thesis
    proof (cases cs)
      case Nil
      from st True Nil have "decompress_loop d i s = (end_status (rerrno i) InsideBackref, s)"
        by (simp add: loop token_step_def del: decompress_loop.simps)
      with run_result_inside [OF True, of "rerrno i" hist c s] Nil show ?thesis by simp
    next
      case (Cons n ds)
      let ?d = "Suc (unat c)"
      let ?h = "copy_back hist ?d (Suc (unat n))"
      have d: "1 \<le> ?d" "?d \<le> 256" using unsigned_less [of c, where 'a = nat] by simp_all
      have c1: "c + 1 = of_nat ?d" by simp
      note cl = copy_loop_refines [OF binv d, of "unat n" s, folded c1]
      note rr = run_result_backref [OF True, of "rerrno i" hist c n ds s]
      show ?thesis
      proof (cases "write_all (drop (length hist) ?h) s")
        case (Inl f)
        with cl have "copy_loop (buf_d d) (o_d d) (c + 1) (unat n) s = Inl f"
          by (simp only: sum.case)
        with st True Cons have "decompress_loop d i s = (Err (write_errno f), f)"
          by (simp add: loop token_step_def del: decompress_loop.simps copy_loop.simps)
        with rr Inl Cons show ?thesis by simp
      next
        case (Inr s')
        let ?buf = "buf_after (buf_d d) (o_d d) (c + 1) (Suc (unat n))"
        let ?mo = "o_d d + of_nat (Suc (unat n))"
        let ?d' = "\<lparr>buf_d = ?buf, o_d = ?mo, map_d = ucast ctl',
                    msk_d = push_bit (t mod 8) 0x01010101\<rparr>"
        from cl Inr have "copy_loop (buf_d d) (o_d d) (c + 1) (unat n) s = Inr (?buf, ?mo, s')"
          by (simp only: sum.case)
        with st True Cons have step: "decompress_step d i s = Inr (?d', i\<lparr>pending := ds\<rparr>, s')"
          by (simp add: token_step_def del: copy_loop.simps)
        have "buf_inv (buf_after (buf_d d) (o_d d) (of_nat ?d) (Suc (unat n))) ?mo ?h"
          using binv d by (rule buf_inv_after)
        then have "buf_inv ?buf ?mo ?h" by (simp only: c1)
        with inv have inv': "dec_inv (t + 1) ctl' ?d' ?h" by (rule dec_inv_next)
        from len Cons have "length (pending (i\<lparr>pending := ds\<rparr>)) < length (pending i)" by simp
        from less.hyps [OF this inv', of s']
        have "decompress_loop ?d' (i\<lparr>pending := ds\<rparr>) s' =
            run_result (rerrno i) ?h (sdecode (t + 1) ctl' ?h ds) s'" by simp
        with step have "decompress_loop d i s = run_result (rerrno i) ?h (sdecode (t + 1) ctl' ?h ds) s'"
          by (simp add: loop del: decompress_loop.simps)
        with rr Inr Cons show ?thesis by simp
      qed
    qed
  next
    case False
    note rr = run_result_literal [OF False, of "rerrno i" hist c cs s]
    show ?thesis
    proof (cases "putc_unlocked c s")
      case None
      with st False have "decompress_loop d i s = (Err (write_errno s), s)"
        by (simp add: loop token_step_def del: decompress_loop.simps)
      with rr None show ?thesis by simp
    next
      case (Some s')
      let ?d' = "\<lparr>buf_d = (buf_d d)(o_d d := c), o_d = o_d d + 1, map_d = ucast ctl',
                  msk_d = push_bit (t mod 8) 0x01010101\<rparr>"
      from st False Some have step: "decompress_step d i s = Inr (?d', i\<lparr>pending := cs\<rparr>, s')"
        by (simp add: token_step_def)
      have "buf_inv ((buf_d d)(o_d d := c)) (o_d d + 1) (hist @ [c])"
        using binv by (rule buf_inv_snoc)
      with inv have inv': "dec_inv (t + 1) ctl' ?d' (hist @ [c])" by (rule dec_inv_next)
      from len have "length (pending (i\<lparr>pending := cs\<rparr>)) < length (pending i)" by simp
      from less.hyps [OF this inv', of s']
      have "decompress_loop ?d' (i\<lparr>pending := cs\<rparr>) s' =
          run_result (rerrno i) (hist @ [c]) (sdecode (t + 1) ctl' (hist @ [c]) cs) s'" by simp
      with step have "decompress_loop d i s =
          run_result (rerrno i) (hist @ [c]) (sdecode (t + 1) ctl' (hist @ [c]) cs) s'"
        by (simp add: loop del: decompress_loop.simps)
      with rr Some show ?thesis by simp
    qed
  qed
  show ?case
  proof (cases "pending i")
    case Nil
    with decompress_step_end [OF Nil, of d s] show ?thesis
      by (simp add: loop run_result_def del: decompress_loop.simps)
  next
    case (Cons b bs)
    show ?thesis
    proof (cases "t mod 8 = 0")
      case True
      note st = decompress_step_control [OF inv True Cons, of s]
      show ?thesis
      proof (cases bs)
        case Nil
        with st Cons True show ?thesis
          by (simp add: loop run_result_def del: decompress_loop.simps)
      next
        case (Cons c cs)
        with st have "decompress_step d i s = token_step t b d i s c cs" by simp
        moreover from Cons \<open>pending i = b # bs\<close> have "length cs < length (pending i)" by simp
        ultimately have "decompress_loop d i s =
            run_result (rerrno i) hist (sdecode_token t b hist (c # cs)) s" by (rule tok)
        with Cons \<open>pending i = b # bs\<close> True show ?thesis by (simp del: sdecode_token.simps)
      qed
    next
      case False
      note st = decompress_step_token [OF inv False Cons, of s]
      moreover from Cons have "length bs < length (pending i)" by simp
      ultimately have "decompress_loop d i s =
          run_result (rerrno i) hist (sdecode_token t ctl hist (b # bs)) s" by (rule tok)
      with Cons False show ?thesis by (simp del: sdecode_token.simps)
    qed
  qed
qed


text \<open>How a stream ends: between two tokens, after a control byte, or inside a
  back-reference.\<close>

fun stream_end :: "nat \<Rightarrow> byte \<Rightarrow> byte list \<Rightarrow> ending"
  and stream_end_token :: "nat \<Rightarrow> byte \<Rightarrow> byte list \<Rightarrow> ending" where
  "stream_end t ctl [] = Complete"
| "stream_end t ctl (b # bs) =
     (if t mod 8 = 0 then stream_end_token t b bs else stream_end_token t ctl (b # bs))"
| "stream_end_token t ctl [] = AfterControl"
| "stream_end_token t ctl (c # cs) =
     (if bit ctl (t mod 8) then
        (case cs of [] \<Rightarrow> InsideBackref | n # ds \<Rightarrow> stream_end (t + 1) ctl ds)
      else stream_end (t + 1) ctl cs)"

lemma sdecode_ending:
  "fst (sdecode t ctl hist bs) = stream_end t ctl bs"
  "fst (sdecode_token t ctl hist bs) = stream_end_token t ctl bs"
  by (induction t ctl hist bs and t ctl hist bs rule: sdecode_sdecode_token.induct)
     (auto split: list.splits)

lemma byte_of_nat_256_minus:
  assumes "d \<le> 256"
  shows "(of_nat (256 - d) :: byte) = 0 - of_nat d"
proof -
  have "(of_nat (256 - d) :: byte) = of_nat 256 - of_nat d"
    using assms by (rule of_nat_diff)
  then show ?thesis by simp
qed

lemma buf_inv_init: "buf_inv buf0 0 (init_hist buf0)"
  unfolding buf_inv_def
proof (intro conjI allI impI)
  show "256 \<le> length (init_hist buf0)" by (simp add: init_hist_def)
  show "(0::byte) = word_of_nat (length (init_hist buf0))" by (simp add: init_hist_def)
next
  fix d :: nat
  assume d: "1 \<le> d \<and> d \<le> 256"
  then have "256 - d < 256" by arith
  then have "init_hist buf0 ! (256 - d) = buf0 (of_nat (256 - d))"
    unfolding init_hist_def by (simp del: upt_Suc)
  moreover have "length (init_hist buf0) = 256" by (simp add: init_hist_def)
  moreover from d have "(of_nat (256 - d) :: byte) = 0 - of_nat d"
    by (intro byte_of_nat_256_minus) simp
  ultimately show "buf0 (0 - word_of_nat d) = init_hist buf0 ! (length (init_hist buf0) - d)"
    by (simp only:)
qed

lemma dec_inv_init:
  "dec_inv 0 ctl \<lparr>buf_d = buf0, o_d = 0, map_d = map0,
      msk_d = push_bit 31 1 OR push_bit 23 1 OR push_bit 15 1 OR push_bit 7 1\<rparr> (init_hist buf0)"
  using buf_inv_init [of buf0] by (simp add: dec_inv_def)

text \<open>The bytes a stream decodes to, from the decoder's initial buffer \<open>buf0\<close>.\<close>

definition decoded :: "(byte \<Rightarrow> byte) \<Rightarrow> byte list \<Rightarrow> byte list" where
  "decoded buf0 bs = drop 256 (snd (sdecode 0 0 (init_hist buf0) bs))"

lemma decompress_refines:
  "decompress buf0 map0 i s =
     (case write_all (decoded buf0 (pending i)) s of
        Inl f \<Rightarrow> (Err (write_errno f), f)
      | Inr s' \<Rightarrow> (end_status (rerrno i) (stream_end 0 0 (pending i)), s'))"
proof -
  have L: "length (init_hist buf0) = 256" by (simp add: init_hist_def)
  note R = decompress_loop_refines [OF dec_inv_init [of 0 buf0 map0], of i s]
  show ?thesis
    unfolding decompress_def R run_result_def decoded_def L sdecode_ending
    by (rule refl)
qed

section \<open>Decoder error handling\<close>

text \<open>No write of \<open>n\<close> bytes to the sink fails.\<close>

definition fits :: "sink \<Rightarrow> nat \<Rightarrow> bool" where
  "fits s n = (case room s of None \<Rightarrow> True | Some k \<Rightarrow> n \<le> k)"

lemma write_all_fits:
  "fits s (length xs) \<Longrightarrow> \<exists>s'. write_all xs s = Inr s'"
proof (induction xs arbitrary: s)
  case Nil
  show ?case by simp
next
  case (Cons x xs)
  show ?case
  proof (cases "room s")
    case None
    then have "fits (s\<lparr>written := written s @ [x]\<rparr>) (length xs)" by (simp add: fits_def)
    from Cons.IH [OF this] None show ?thesis by (simp add: putc_unlocked_def)
  next
    case (Some k)
    with Cons.prems have k: "Suc (length xs) \<le> k" by (simp add: fits_def)
    then have "fits (s\<lparr>written := written s @ [x], room := Some (k - 1)\<rparr>) (length xs)"
      by (simp add: fits_def)
    from Cons.IH [OF this] Some k show ?thesis by (simp add: putc_unlocked_def)
  qed
qed

lemma write_all_not_fits:
  "\<not> fits s (length xs) \<Longrightarrow> \<exists>f. write_all xs s = Inl f \<and> write_errno f = write_errno s"
proof (induction xs arbitrary: s)
  case Nil
  then show ?case by (simp add: fits_def split: option.splits)
next
  case (Cons x xs)
  from Cons.prems obtain k where k: "room s = Some k" "k < Suc (length xs)"
    by (auto simp: fits_def split: option.splits)
  show ?case
  proof (cases "k = 0")
    case True
    with k show ?thesis by (simp add: putc_unlocked_def)
  next
    case False
    let ?s = "s\<lparr>written := written s @ [x], room := Some (k - 1)\<rparr>"
    from k False have "\<not> fits ?s (length xs)" by (auto simp: fits_def)
    from Cons.IH [OF this] k False show ?thesis
      by (simp add: putc_unlocked_def write_errno_def)
  qed
qed

text \<open>The status that \<open>decompress\<close> returns: that of the way the stream ends and of
  the source when no write fails, the sink's error otherwise.\<close>

lemma decompress_status:
  "fst (decompress buf0 map0 i s) =
     (if fits s (length (decoded buf0 (pending i)))
      then end_status (rerrno i) (stream_end 0 0 (pending i))
      else Err (write_errno s))"
proof (cases "fits s (length (decoded buf0 (pending i)))")
  case True
  from write_all_fits [OF this] obtain s' where
    "write_all (decoded buf0 (pending i)) s = Inr s'" by blast
  with True show ?thesis by (simp add: decompress_refines)
next
  case False
  from write_all_not_fits [OF this] obtain f where
    "write_all (decoded buf0 (pending i)) s = Inl f" "write_errno f = write_errno s" by blast
  with False show ?thesis by (simp add: decompress_refines)
qed

text \<open>
  Claim C9.  The source delivers its bytes and then reports the end of the file
  (\<open>rerrno i = None\<close>) or a read error with its error number; \<open>fits\<close> says that no write
  of the decoded bytes fails.  When no write fails and the source ends with the end of the
  file, \<open>decompress\<close> returns 0 if the stream ends between two tokens and \<open>EIO\<close> if it
  ends right after a control byte or between the two bytes of a back-reference; when the
  source stops on a read error it returns that error's number, wherever the stream stops.
  When a write fails it returns the sink's error number, or \<open>EIO\<close> when the failed write
  did not set the stream's error indicator.  Error numbers are positive (POSIX), that is
  neither stream fails with the number 0; then the value returned is 0 exactly when no
  write fails and the end of the file is reached between two tokens.
\<close>

theorem C9_decoder_errors:
  "(fits s (length (decoded buf0 (pending i))) \<longrightarrow>
      (rerrno i = None \<and> stream_end 0 0 (pending i) = Complete \<longrightarrow>
         fst (decompress buf0 map0 i s) = OK) \<and>
      (rerrno i = None \<and>
       (stream_end 0 0 (pending i) = AfterControl \<or> stream_end 0 0 (pending i) = InsideBackref)
         \<longrightarrow> fst (decompress buf0 map0 i s) = Err EIO) \<and>
      (\<forall>x. rerrno i = Some x \<longrightarrow> fst (decompress buf0 map0 i s) = Err (Errno x))) \<and>
   (\<not> fits s (length (decoded buf0 (pending i))) \<longrightarrow>
      fst (decompress buf0 map0 i s) = Err (case werrno s of None \<Rightarrow> EIO | Some x \<Rightarrow> Errno x)) \<and>
   (rerrno i \<noteq> Some 0 \<and> werrno s \<noteq> Some 0 \<longrightarrow>
      (ret_int (fst (decompress buf0 map0 i s)) = 0 \<longleftrightarrow>
         fits s (length (decoded buf0 (pending i))) \<and> rerrno i = None \<and>
         stream_end 0 0 (pending i) = Complete) \<and>
      (\<not> fits s (length (decoded buf0 (pending i))) \<or> rerrno i \<noteq> None \<or>
       stream_end 0 0 (pending i) \<noteq> Complete \<longrightarrow>
         ret_int (fst (decompress buf0 map0 i s)) > 0))"
proof -
  note D = decompress_status [of buf0 map0 i s]
  show ?thesis
  proof (cases "fits s (length (decoded buf0 (pending i)))")
    case True
    with D have r: "fst (decompress buf0 map0 i s) =
        end_status (rerrno i) (stream_end 0 0 (pending i))" by simp
    show ?thesis
    proof (cases "rerrno i")
      case None
      with True r show ?thesis
        by (cases "stream_end 0 0 (pending i)") (simp_all add: end_status_def)
    next
      case (Some x)
      with True r show ?thesis by (simp add: end_status_def)
    qed
  next
    case False
    with D have r: "fst (decompress buf0 map0 i s) = Err (write_errno s)" by simp
    with False show ?thesis
      by (cases "werrno s") (simp_all add: write_errno_def)
  qed
qed

lemmas wire_eval =
  stream_end.simps stream_end_token.simps sdecode.simps sdecode_token.simps copy_back.simps
  decoded_def init_hist_def fits_def

text \<open>The theorem on four streams from a source that ends with the end of the file (a
  whole stream, a control byte alone, a back-reference cut after its first byte, and the
  whole stream on sinks that take three bytes), and on the whole stream from a source
  that stops on the read error 5.\<close>

theorem C9_decoder_errors_witness:
  "fits sink_empty (length (decoded buf_zero [0x02, 0x00, 0x00, 0x08])) \<and>
   rerrno (source_of [0x02, 0x00, 0x00, 0x08]) = None \<and> werrno sink_empty \<noteq> Some 0 \<and>
   stream_end 0 0 [0x02, 0x00, 0x00, 0x08] = Complete \<and>
   fst (decompress buf_zero 0 (source_of [0x02, 0x00, 0x00, 0x08]) sink_empty) = OK \<and>
   ret_int (fst (decompress buf_zero 0 (source_of [0x02, 0x00, 0x00, 0x08]) sink_empty)) = 0 \<and>
   stream_end 0 0 [0x02] = AfterControl \<and>
   fst (decompress buf_zero 0 (source_of [0x02]) sink_empty) = Err EIO \<and>
   ret_int (fst (decompress buf_zero 0 (source_of [0x02]) sink_empty)) > 0 \<and>
   stream_end 0 0 [0x02, 0x00, 0x00] = InsideBackref \<and>
   fst (decompress buf_zero 0 (source_of [0x02, 0x00, 0x00]) sink_empty) = Err EIO \<and>
   ret_int (fst (decompress buf_zero 0 (source_of [0x02, 0x00, 0x00]) sink_empty)) > 0 \<and>
   \<not> fits (sink_empty\<lparr>room := Some 3, werrno := Some 28\<rparr>)
     (length (decoded buf_zero [0x02, 0x00, 0x00, 0x08])) \<and>
   fst (decompress buf_zero 0 (source_of [0x02, 0x00, 0x00, 0x08])
     (sink_empty\<lparr>room := Some 3, werrno := Some 28\<rparr>)) = Err (Errno 28) \<and>
   ret_int (fst (decompress buf_zero 0 (source_of [0x02, 0x00, 0x00, 0x08])
     (sink_empty\<lparr>room := Some 3, werrno := Some 28\<rparr>))) > 0 \<and>
   fst (decompress buf_zero 0 (source_of [0x02, 0x00, 0x00, 0x08])
     (sink_empty\<lparr>room := Some 3\<rparr>)) = Err EIO \<and>
   fst (decompress buf_zero 0 \<lparr>pending = [0x02, 0x00, 0x00, 0x08], rerrno = Some 5\<rparr>
     sink_empty) = Err (Errno 5) \<and>
   ret_int (fst (decompress buf_zero 0 \<lparr>pending = [0x02, 0x00, 0x00, 0x08], rerrno = Some 5\<rparr>
     sink_empty)) > 0"
proof -
  have e: "\<And>xs. rerrno (source_of xs) = None" "\<And>xs. pending (source_of xs) = xs"
    by (simp_all add: source_of_def)
  have len: "length (decoded buf_zero [0x02, 0x00, 0x00, 0x08]) = 10"
    "length (decoded buf_zero [0x02]) = 0" "length (decoded buf_zero [0x02, 0x00, 0x00]) = 1"
    by (simp_all add: wire_eval del: upt_Suc)
  have f1: "\<And>n. fits sink_empty n" by (simp add: fits_def sink_empty_def)
  have f2: "\<not> fits (sink_empty\<lparr>room := Some 3, werrno := Some 28\<rparr>) 10"
    "\<not> fits (sink_empty\<lparr>room := Some 3\<rparr>) 10"
    by (simp_all add: fits_def)
  have w0: "werrno sink_empty \<noteq> Some 0" "werrno (sink_empty\<lparr>room := Some 3\<rparr>) = None"
    by (simp_all add: sink_empty_def)
  have s1: "stream_end 0 0 [0x02, 0x00, 0x00, 0x08] = Complete"
    and s2: "stream_end 0 0 [0x02] = AfterControl"
    and s3: "stream_end 0 0 [0x02, 0x00, 0x00] = InsideBackref"
    by simp_all
  note A = C9_decoder_errors [of sink_empty buf_zero "source_of [0x02, 0x00, 0x00, 0x08]" 0]
  from A e f1 s1 w0
  have a: "fst (decompress buf_zero 0 (source_of [0x02, 0x00, 0x00, 0x08]) sink_empty) = OK"
    "ret_int (fst (decompress buf_zero 0 (source_of [0x02, 0x00, 0x00, 0x08]) sink_empty)) = 0"
    by simp_all
  note B = C9_decoder_errors [of sink_empty buf_zero "source_of [0x02]" 0]
  from B e f1 s2 w0
  have b: "fst (decompress buf_zero 0 (source_of [0x02]) sink_empty) = Err EIO"
    "ret_int (fst (decompress buf_zero 0 (source_of [0x02]) sink_empty)) > 0"
    by simp_all
  note C = C9_decoder_errors [of sink_empty buf_zero "source_of [0x02, 0x00, 0x00]" 0]
  from C e f1 s3 w0
  have c: "fst (decompress buf_zero 0 (source_of [0x02, 0x00, 0x00]) sink_empty) = Err EIO"
    "ret_int (fst (decompress buf_zero 0 (source_of [0x02, 0x00, 0x00]) sink_empty)) > 0"
    by simp_all
  note D = C9_decoder_errors [of "sink_empty\<lparr>room := Some 3, werrno := Some 28\<rparr>" buf_zero
      "source_of [0x02, 0x00, 0x00, 0x08]" 0]
  from D e f2 len
  have d: "fst (decompress buf_zero 0 (source_of [0x02, 0x00, 0x00, 0x08])
     (sink_empty\<lparr>room := Some 3, werrno := Some 28\<rparr>)) = Err (Errno 28)"
    "ret_int (fst (decompress buf_zero 0 (source_of [0x02, 0x00, 0x00, 0x08])
     (sink_empty\<lparr>room := Some 3, werrno := Some 28\<rparr>))) > 0"
    by simp_all
  note E = C9_decoder_errors [of "sink_empty\<lparr>room := Some 3\<rparr>" buf_zero
      "source_of [0x02, 0x00, 0x00, 0x08]" 0]
  from E e f2 len w0
  have g: "fst (decompress buf_zero 0 (source_of [0x02, 0x00, 0x00, 0x08])
     (sink_empty\<lparr>room := Some 3\<rparr>)) = Err EIO"
    by simp
  note F = C9_decoder_errors [of sink_empty buf_zero
      "\<lparr>pending = [0x02, 0x00, 0x00, 0x08], rerrno = Some 5\<rparr>" 0]
  from F f1 w0
  have h: "fst (decompress buf_zero 0 \<lparr>pending = [0x02, 0x00, 0x00, 0x08], rerrno = Some 5\<rparr>
     sink_empty) = Err (Errno 5)"
    "ret_int (fst (decompress buf_zero 0 \<lparr>pending = [0x02, 0x00, 0x00, 0x08], rerrno = Some 5\<rparr>
     sink_empty)) > 0"
    by simp_all
  from e(1) f1 f2 len s1 s2 s3 w0 a b c d g h show ?thesis by simp
qed

section \<open>Back-references in the decoder\<close>

lemma copy_back_nth_old:
  assumes "k < length hist"
  shows "copy_back hist d n ! k = hist ! k"
proof -
  obtain ys where "copy_back hist d n = hist @ ys" using copy_back_ex by blast
  with assms show ?thesis by (simp add: nth_append)
qed

lemma copy_back_nth_new:
  assumes "1 \<le> d" and "d \<le> length hist" and "k < n"
  shows "copy_back hist d n ! (length hist + k) = copy_back hist d n ! (length hist + k - d)"
  using assms(2,3)
proof (induction n arbitrary: hist k)
  case 0
  then show ?case by simp
next
  case (Suc n)
  let ?x = "hist ! (length hist - d)"
  let ?h = "hist @ [?x]"
  have cb: "copy_back hist d (Suc n) = copy_back ?h d n" by (simp add: copy_back.simps)
  show ?case
  proof (cases k)
    case 0
    have "copy_back ?h d n ! length hist = ?h ! length hist"
      by (rule copy_back_nth_old) simp
    moreover have "copy_back ?h d n ! (length hist - d) = ?h ! (length hist - d)"
      using assms(1) Suc.prems(1) by (intro copy_back_nth_old) simp
    moreover have "?h ! (length hist - d) = ?x"
      using assms(1) Suc.prems(1) by (simp add: nth_append)
    ultimately show ?thesis using 0 cb by simp
  next
    case (Suc k')
    with Suc.prems have "k' < n" by simp
    moreover from Suc.prems(1) have "d \<le> length ?h" by simp
    ultimately have "copy_back ?h d n ! (length ?h + k') = copy_back ?h d n ! (length ?h + k' - d)"
      by (rule Suc.IH [rotated])
    with Suc cb show ?thesis by simp
  qed
qed

lemma copy_back_replicate:
  assumes "hist \<noteq> []"
  shows "copy_back hist 1 n = hist @ replicate n (last hist)"
  using assms
proof (induction n arbitrary: hist)
  case 0
  show ?case by (simp add: copy_back.simps)
next
  case (Suc n)
  from Suc.prems have l: "hist ! (length hist - 1) = last hist" by (simp add: last_conv_nth)
  from Suc.IH [of "hist @ [last hist]"] l show ?case
    by (simp add: copy_back.simps replicate_app_Cons_same)
qed

lemma copy_back_append:
  assumes "1 \<le> d" and "d \<le> length out"
  shows "copy_back (pre @ out) d n = pre @ copy_back out d n"
  using assms(2)
proof (induction n arbitrary: out)
  case 0
  show ?case by (simp add: copy_back.simps)
next
  case (Suc n)
  from Suc.prems have "length (pre @ out) - d = length pre + (length out - d)" by simp
  then have "(pre @ out) ! (length (pre @ out) - d) = out ! (length out - d)"
    by (simp only: nth_append_length_plus)
  moreover from Suc.prems have "d \<le> length (out @ [out ! (length out - d)])" by simp
  ultimately show ?case using Suc.IH [of "out @ [out ! (length out - d)]"]
    by (simp add: copy_back.simps)
qed


text \<open>
  Claim C6.  The decoder has read \<open>t\<close> tokens and written \<open>out\<close> (\<open>pre\<close> is what its
  buffer held at the start); the next token is a back-reference with the bytes \<open>off\<close> and
  \<open>len\<close>, after the control byte when a group starts; no write fails.  Then the pass of
  the loop consumes the two bytes and appends \<open>len + 1\<close> bytes to the output: the output,
  behind \<open>pre\<close>, becomes \<open>copy_back\<close> of it, where each byte appended is the one
  \<open>off + 1\<close> positions behind the end as it is then.  When the reference stays within
  the output (\<open>off < length out\<close>), byte \<open>k\<close> of the new bytes is the byte \<open>off + 1\<close>
  positions before it in the output with the new bytes, so a byte just copied is read
  again.  With \<open>off = 0\<close> the new bytes are \<open>len + 1\<close> copies of the last byte of the
  output.
\<close>

theorem C6_backref_semantics:
  "dec_inv t ctl d (pre @ out) \<and> length pre = 256 \<and> rerrno i = None \<and> room s = None \<and>
   bit ctl' (t mod 8) \<and>
   (t mod 8 = 0 \<and> pending i = ctl' # off # len # rest \<or>
    t mod 8 \<noteq> 0 \<and> ctl' = ctl \<and> pending i = off # len # rest) \<longrightarrow>
   (\<exists>d' new.
      decompress_step d i s = Inr (d', i\<lparr>pending := rest\<rparr>, s\<lparr>written := written s @ new\<rparr>) \<and>
      dec_inv (t + 1) ctl' d' (pre @ out @ new) \<and>
      length new = unat len + 1 \<and>
      pre @ out @ new = copy_back (pre @ out) (unat off + 1) (unat len + 1) \<and>
      (unat off < length out \<longrightarrow>
         out @ new = copy_back out (unat off + 1) (unat len + 1) \<and>
         (\<forall>k < length new. new ! k = (out @ new) ! (length out + k - (unat off + 1)))) \<and>
      (off = 0 \<and> out \<noteq> [] \<longrightarrow> new = replicate (unat len + 1) (last out)))"
proof
  assume a: "dec_inv t ctl d (pre @ out) \<and> length pre = 256 \<and> rerrno i = None \<and>
    room s = None \<and> bit ctl' (t mod 8) \<and>
    (t mod 8 = 0 \<and> pending i = ctl' # off # len # rest \<or>
     t mod 8 \<noteq> 0 \<and> ctl' = ctl \<and> pending i = off # len # rest)"
  then have inv: "dec_inv t ctl d (pre @ out)" and eof: "rerrno i = None"
    and room: "room s = None" and bit: "bit ctl' (t mod 8)" by simp_all
  let ?hist = "pre @ out"
  let ?D = "Suc (unat off)"
  let ?N = "Suc (unat len)"
  let ?h = "copy_back ?hist ?D ?N"
  define new where "new = drop (length ?hist) ?h"
  have h: "?h = ?hist @ new" unfolding new_def by (rule copy_back_drop [symmetric])
  from inv have binv: "buf_inv (buf_d d) (o_d d) ?hist" by (simp add: dec_inv_def)
  have D: "1 \<le> ?D" "?D \<le> 256" using unsigned_less [of off, where 'a = nat] by simp_all
  have c1: "off + 1 = of_nat ?D" by simp
  let ?buf = "buf_after (buf_d d) (o_d d) (off + 1) ?N"
  let ?mo = "o_d d + of_nat ?N"
  let ?d' = "\<lparr>buf_d = ?buf, o_d = ?mo, map_d = ucast ctl',
              msk_d = push_bit (t mod 8) 0x01010101\<rparr>"
  let ?s' = "s\<lparr>written := written s @ new\<rparr>"
  have w: "write_all new s = Inr ?s'" using room by (rule write_all_never_fails)
  have "copy_loop (buf_d d) (o_d d) (off + 1) (unat len) s = Inr (?buf, ?mo, ?s')"
    using copy_loop_refines [OF binv D, of "unat len" s, folded c1 new_def] w
    by (simp only: sum.case)
  then have ts: "token_step t ctl' d i s off (len # rest) = Inr (?d', i\<lparr>pending := rest\<rparr>, ?s')"
    using bit by (simp add: token_step_def del: copy_loop.simps)
  from a have "decompress_step d i s = token_step t ctl' d i s off (len # rest)"
  proof (elim conjE disjE)
    assume "t mod 8 = 0" "pending i = ctl' # off # len # rest"
    from decompress_step_control [OF inv this, of s] show ?thesis by simp
  next
    assume "t mod 8 \<noteq> 0" "ctl' = ctl" "pending i = off # len # rest"
    from decompress_step_token [OF inv this(1,3), of s] this(2) show ?thesis by simp
  qed
  with ts have step: "decompress_step d i s = Inr (?d', i\<lparr>pending := rest\<rparr>, ?s')" by simp
  have "buf_inv (buf_after (buf_d d) (o_d d) (of_nat ?D) ?N) ?mo ?h"
    using binv D by (rule buf_inv_after)
  then have "buf_inv ?buf ?mo ?h" by (simp only: c1)
  with inv have "dec_inv (t + 1) ctl' ?d' ?h" by (rule dec_inv_next)
  then have inv': "dec_inv (t + 1) ctl' ?d' (pre @ out @ new)" using h by simp
  have "length ?h = length ?hist + ?N" by simp
  with h have len: "length new = unat len + 1" by simp
  have cb: "pre @ out @ new = copy_back (pre @ out) (unat off + 1) (unat len + 1)"
    using h by simp
  have in_out: "out @ new = copy_back out (unat off + 1) (unat len + 1) \<and>
      (\<forall>k < length new. new ! k = (out @ new) ! (length out + k - (unat off + 1)))"
    if lt: "unat off < length out"
  proof -
    from lt have dl: "?D \<le> length out" by simp
    from copy_back_append [OF D(1) dl, of pre ?N] h
    have on: "out @ new = copy_back out ?D ?N" by simp
    have "new ! k = (out @ new) ! (length out + k - ?D)" if "k < length new" for k
    proof -
      from that len have "k < ?N" by simp
      from copy_back_nth_new [OF D(1) dl this]
      have "(out @ new) ! (length out + k) = (out @ new) ! (length out + k - ?D)"
        unfolding on .
      then show ?thesis by simp
    qed
    with on show ?thesis by simp
  qed
  have rep: "new = replicate (unat len + 1) (last out)" if z: "off = 0 \<and> out \<noteq> []"
  proof -
    from z have "unat off < length out" by simp
    from in_out [OF this] z have "out @ new = copy_back out 1 ?N" by simp
    with copy_back_replicate [of out ?N] z show ?thesis by simp
  qed
  from step inv' len cb in_out rep
  show "\<exists>d' new.
      decompress_step d i s = Inr (d', i\<lparr>pending := rest\<rparr>, s\<lparr>written := written s @ new\<rparr>) \<and>
      dec_inv (t + 1) ctl' d' (pre @ out @ new) \<and>
      length new = unat len + 1 \<and>
      pre @ out @ new = copy_back (pre @ out) (unat off + 1) (unat len + 1) \<and>
      (unat off < length out \<longrightarrow>
         out @ new = copy_back out (unat off + 1) (unat len + 1) \<and>
         (\<forall>k < length new. new ! k = (out @ new) ! (length out + k - (unat off + 1)))) \<and>
      (off = 0 \<and> out \<noteq> [] \<longrightarrow> new = replicate (unat len + 1) (last out))"
    by blast
qed


theorem C6_backref_semantics_witness:
  "dec_inv 1 0x02 \<lparr>buf_d = buf_zero(0 := 0x41), o_d = 1, map_d = 0x02, msk_d = 0x01010101\<rparr>
     (init_hist buf_zero @ [0x41]) \<and>
   bit (0x02 :: byte) (1 mod 8) \<and>
   (\<exists>d'. decompress_step
       \<lparr>buf_d = buf_zero(0 := 0x41), o_d = 1, map_d = 0x02, msk_d = 0x01010101\<rparr>
       (source_of [0x00, 0x02]) (sink_empty\<lparr>written := [0x41]\<rparr>)
     = Inr (d', source_of [], sink_empty\<lparr>written := [0x41, 0x41, 0x41, 0x41]\<rparr>))"
proof -
  let ?d = "\<lparr>buf_d = buf_zero(0 := 0x41), o_d = 1, map_d = 0x02, msk_d = 0x01010101\<rparr>"
  let ?i = "source_of [0x00, 0x02]"
  let ?s = "sink_empty\<lparr>written := [0x41]\<rparr>"
  have "dec_inv (0 + 1) (0x02 :: byte)
      \<lparr>buf_d = buf_zero(0 := 0x41), o_d = 0 + 1, map_d = ucast (0x02 :: byte),
       msk_d = push_bit (0 mod 8) 0x01010101\<rparr> (init_hist buf_zero @ [0x41])"
    by (rule dec_inv_next [OF dec_inv_init buf_inv_snoc [OF buf_inv_init]])
  then have inv: "dec_inv 1 0x02 ?d (init_hist buf_zero @ [0x41])" by simp
  have b: "bit (0x02 :: byte) (1 mod 8)" by simp
  have hyp: "dec_inv 1 0x02 ?d (init_hist buf_zero @ [0x41]) \<and>
      length (init_hist buf_zero) = 256 \<and> rerrno ?i = None \<and> room ?s = None \<and>
      bit (0x02 :: byte) (1 mod 8) \<and>
      (1 mod 8 = (0::nat) \<and> pending ?i = 0x02 # 0x00 # 0x02 # [] \<or>
       1 mod 8 \<noteq> (0::nat) \<and> (0x02 :: byte) = 0x02 \<and> pending ?i = 0x00 # 0x02 # [])"
    using inv by (simp add: init_hist_def source_of_def sink_empty_def)
  from C6_backref_semantics [of 1 "0x02" ?d "init_hist buf_zero" "[0x41]" ?i ?s "0x02"
      "0x00" "0x02" "[]"] hyp
  obtain d' new where
    st: "decompress_step ?d ?i ?s = Inr (d', ?i\<lparr>pending := []\<rparr>, ?s\<lparr>written := written ?s @ new\<rparr>)"
    and rep: "(0::byte) = 0 \<and> [0x41 :: byte] \<noteq> [] \<longrightarrow>
        new = replicate (unat (0x02 :: byte) + 1) (last [0x41])"
    by blast
  from rep have "new = [0x41, 0x41, 0x41]" by (simp add: numeral_3_eq_3)
  with st have "decompress_step ?d ?i ?s =
      Inr (d', source_of [], sink_empty\<lparr>written := [0x41, 0x41, 0x41, 0x41]\<rparr>)"
    by (simp add: source_of_def sink_empty_def)
  with inv b show ?thesis by blast
qed

section \<open>KMP search: the failure table\<close>

text \<open>The pattern is the lookahead, the text is the dictionary followed by the
  lookahead; both are read from the window buffer, byte \<open>k\<close> from the tail of the ring.\<close>

definition pat_at :: "wnd \<Rightarrow> nat \<Rightarrow> byte" where
  "pat_at w k = bf w (ring_mask (tl_r (lookahead w) + k))"

definition text_at :: "wnd \<Rightarrow> nat \<Rightarrow> byte" where
  "text_at w k = bf w (ring_mask (tl_r (dictionary w) + k))"

text \<open>The first \<open>k\<close> bytes of the pattern are a proper border of its first \<open>n\<close> bytes:
  a prefix that is also a suffix.\<close>

definition border :: "wnd \<Rightarrow> nat \<Rightarrow> nat \<Rightarrow> bool" where
  "border w k n \<longleftrightarrow> k < n \<and> (\<forall>x<k. pat_at w x = pat_at w (n - k + x))"

text \<open>The entries \<open>0 .. n - 1\<close> of the table are written and entry \<open>q - 1\<close> is the length
  of the longest proper border of the first \<open>q\<close> bytes of the pattern.\<close>

definition table_ok :: "wnd \<Rightarrow> table \<Rightarrow> nat \<Rightarrow> bool" where
  "table_ok w t n \<longleftrightarrow>
     (\<forall>q. 1 \<le> q \<and> q \<le> n \<longrightarrow>
        (\<exists>v. t (q - 1) = Some v \<and> border w (unat v) q \<and> (\<forall>k. border w k q \<longrightarrow> k \<le> unat v)))"

lemma border_0: "0 < n \<Longrightarrow> border w 0 n"
  by (simp add: border_def)

lemma border_pred: "border w (Suc k) (Suc n) \<Longrightarrow> border w k n"
  by (auto simp: border_def)

lemma border_last: "border w (Suc k) (Suc n) \<Longrightarrow> pat_at w k = pat_at w n"
proof -
  assume b: "border w (Suc k) (Suc n)"
  then have "k < Suc k" "Suc k < Suc n" by (simp_all add: border_def)
  with b have "pat_at w k = pat_at w (Suc n - Suc k + k)" unfolding border_def by blast
  with \<open>Suc k < Suc n\<close> show ?thesis by simp
qed

lemma border_ext:
  assumes "border w k n" and "pat_at w k = pat_at w n"
  shows "border w (Suc k) (Suc n)"
  unfolding border_def
proof (intro conjI allI impI)
  from assms(1) show "Suc k < Suc n" by (simp add: border_def)
  fix x assume "x < Suc k"
  show "pat_at w x = pat_at w (Suc n - Suc k + x)"
  proof (cases "x = k")
    case True
    with assms show ?thesis by (simp add: border_def)
  next
    case False
    with \<open>x < Suc k\<close> have "x < k" by simp
    with assms(1) show ?thesis by (simp add: border_def)
  qed
qed

lemma border_lt: "border w k n \<Longrightarrow> k < n"
  by (simp add: border_def)

lemma border_nth: "border w k n \<Longrightarrow> x < k \<Longrightarrow> pat_at w x = pat_at w (n - k + x)"
  by (simp add: border_def)

lemma border_trans:
  assumes "border w a b" and "border w b n"
  shows "border w a n"
  unfolding border_def
proof (intro conjI allI impI)
  note ab = border_lt [OF assms(1)] and bn = border_lt [OF assms(2)]
  from ab bn show "a < n" by simp
  fix x assume x: "x < a"
  from x ab have lt: "b - a + x < b" by arith
  from x ab bn have e: "n - b + (b - a + x) = n - a + x" by arith
  from border_nth [OF assms(1) x] border_nth [OF assms(2) lt] e
  show "pat_at w x = pat_at w (n - a + x)" by simp
qed

lemma border_of_border:
  assumes "border w a n" and "border w b n" and "a < b"
  shows "border w a b"
  unfolding border_def
proof (intro conjI allI impI)
  note bn = border_lt [OF assms(2)]
  show "a < b" by fact
  fix x assume x: "x < a"
  from x assms(3) have lt: "b - a + x < b" by arith
  from x assms(3) bn have e: "n - b + (b - a + x) = n - a + x" by arith
  from border_nth [OF assms(1) x] border_nth [OF assms(2) lt] e
  show "pat_at w x = pat_at w (b - a + x)" by simp
qed

text \<open>The state \<open>(t, i, j)\<close> at the head of the loop of \<open>kmp_init\<close>: \<open>i\<close> and \<open>j\<close> are
  \<open>bi\<close> and \<open>bj\<close> bytes into the lookahead, the table is right below \<open>bj\<close>, the first \<open>bi\<close>
  bytes are a border of the first \<open>bj\<close>, and no border of the first \<open>bj + 1\<close> bytes is
  longer than \<open>bi + 1\<close>.\<close>

definition init_inv :: "wnd \<Rightarrow> table \<Rightarrow> nat \<Rightarrow> nat \<Rightarrow> bool" where
  "init_inv w t i j \<longleftrightarrow>
     (\<exists>bi bj. i = tl_r (lookahead w) + bi \<and> j = tl_r (lookahead w) + bj \<and>
        bi < bj \<and> bj < ring_size (lookahead w) \<and>
        table_ok w t bj \<and> border w bi bj \<and> (\<forall>k. border w k (Suc bj) \<longrightarrow> k \<le> Suc bi))"

lemma byte_unat_of_nat: "k < 256 \<Longrightarrow> unat (of_nat k :: byte) = k"
  by (simp add: unat_of_nat)

lemma table_ok_upd:
  assumes "table_ok w t n" and "border w b (Suc n)" and "\<forall>k. border w k (Suc n) \<longrightarrow> k \<le> b"
    and "b < 256"
  shows "table_ok w (t(n \<mapsto> of_nat b)) (Suc n)"
  unfolding table_ok_def
proof (intro allI impI)
  fix q assume q: "1 \<le> q \<and> q \<le> Suc n"
  show "\<exists>v. (t(n \<mapsto> of_nat b)) (q - 1) = Some v \<and> border w (unat v) q \<and>
      (\<forall>k. border w k q \<longrightarrow> k \<le> unat v)"
  proof (cases "q = Suc n")
    case True
    with assms(2,3,4) show ?thesis by (simp add: byte_unat_of_nat)
  next
    case False
    with q have "1 \<le> q \<and> q \<le> n" "q - 1 \<noteq> n" by auto
    with assms(1) show ?thesis unfolding table_ok_def by (simp del: One_nat_def)
  qed
qed


lemma table_ok_mono: "table_ok w t n \<Longrightarrow> n' \<le> n \<Longrightarrow> table_ok w t n'"
  unfolding table_ok_def by (meson le_trans)

lemma kmp_init_step_inv:
  assumes sz: "ring_size (lookahead w) \<le> 256"
    and inv: "init_inv w t i j"
  shows "\<exists>t' i' j'. kmp_init_step w (t, i, j) = Some (t', i', j') \<and>
     (if j' = hd_r (lookahead w) then table_ok w t' (ring_size (lookahead w))
      else init_inv w t' i' j' \<and>
           2 * (hd_r (lookahead w) - j') + (i' - tl_r (lookahead w))
             < 2 * (hd_r (lookahead w) - j) + (i - tl_r (lookahead w)))"
proof -
  define ltl where "ltl = tl_r (lookahead w)"
  define lhd where "lhd = hd_r (lookahead w)"
  define m where "m = ring_size (lookahead w)"
  from inv obtain bi bj where i: "i = ltl + bi" and j: "j = ltl + bj"
    and lt: "bi < bj" and bj: "bj < m" and tab: "table_ok w t bj"
    and bor: "border w bi bj" and mx: "\<forall>k. border w k (Suc bj) \<longrightarrow> k \<le> Suc bi"
    unfolding init_inv_def ltl_def m_def by blast
  from bj have lhd: "lhd = ltl + m"
    unfolding m_def lhd_def ltl_def ring_size_def by simp
  from sz have m256: "m \<le> 256" by (simp add: m_def)
  have pi: "bf w (ring_mask i) = pat_at w bi" and pj: "bf w (ring_mask j) = pat_at w bj"
    by (simp_all add: pat_at_def i j ltl_def)
  have ix: "j - ltl = bj" "i + 1 - ltl = Suc bi" "i - ltl - 1 = bi - 1" "i = ltl \<longleftrightarrow> bi = 0"
    "i - ltl = bi"
    by (simp_all add: i j)
  have mx2: "\<forall>k. border w k (Suc (Suc bj)) \<longrightarrow> k \<le> Suc b"
    if "\<forall>k. border w k (Suc bj) \<longrightarrow> k \<le> b" for b
  proof (intro allI impI)
    fix k assume k: "border w k (Suc (Suc bj))"
    show "k \<le> Suc b"
    proof (cases k)
      case 0
      then show ?thesis by simp
    next
      case (Suc k')
      with k have "border w k' (Suc bj)" by (simp add: border_pred)
      with that Suc show ?thesis by simp
    qed
  qed
  show ?thesis
  proof (cases "pat_at w bi = pat_at w bj")
    case True
    let ?t = "t(bj \<mapsto> of_nat (Suc bi))"
    have st: "kmp_init_step w (t, i, j) = Some (?t, ltl + Suc bi, ltl + Suc bj)"
      using True by (simp add: kmp_init_step_def pi pj Let_def ltl_def [symmetric] ix) (simp add: i j)
    have b1: "border w (Suc bi) (Suc bj)" using bor True by (rule border_ext)
    from lt bj m256 have "Suc bi < 256" by simp
    with tab b1 mx have tab': "table_ok w ?t (Suc bj)" by (intro table_ok_upd) simp_all
    show ?thesis
    proof (cases "ltl + Suc bj = lhd")
      case True
      with lhd have "Suc bj = m" by simp
      with tab' st True show ?thesis by (simp add: lhd_def m_def)
    next
      case False
      with bj lhd have bj': "Suc bj < m" by simp
      have "init_inv w ?t (ltl + Suc bi) (ltl + Suc bj)"
        unfolding init_inv_def ltl_def [symmetric] m_def [symmetric]
        using lt bj' tab' b1 mx2 [OF mx] by blast
      moreover have "2 * (lhd - (ltl + Suc bj)) + (ltl + Suc bi - ltl)
          < 2 * (lhd - j) + (i - ltl)"
        using bj' lhd by (simp add: i j)
      ultimately show ?thesis using st False by (simp add: lhd_def ltl_def)
    qed
  next
    case False
    show ?thesis
    proof (cases "bi = 0")
      case True
      let ?t = "t(bj \<mapsto> 0)"
      have st: "kmp_init_step w (t, i, j) = Some (?t, i, ltl + Suc bj)"
        using False True
        by (simp add: kmp_init_step_def pi pj Let_def ltl_def [symmetric] ix) (simp add: j)
      have b0: "border w 0 (Suc bj)" by (simp add: border_0)
      have mx0: "\<forall>k. border w k (Suc bj) \<longrightarrow> k \<le> 0"
      proof (intro allI impI)
        fix k assume k: "border w k (Suc bj)"
        with mx True have "k \<le> Suc 0" by simp
        moreover have "k \<noteq> Suc 0"
        proof
          assume "k = Suc 0"
          with k have "pat_at w 0 = pat_at w bj" by (simp add: border_last)
          with False True show False by simp
        qed
        ultimately show "k \<le> 0" by simp
      qed
      from bj m256 have "(0::nat) < 256" by simp
      from table_ok_upd [OF tab b0 mx0 this] have tab': "table_ok w ?t (Suc bj)" by simp
      show ?thesis
      proof (cases "ltl + Suc bj = lhd")
        case True
        with lhd have "Suc bj = m" by simp
        with tab' st True show ?thesis by (simp add: lhd_def m_def)
      next
        case False
        with bj lhd have bj': "Suc bj < m" by simp
        have "init_inv w ?t i (ltl + Suc bj)"
          unfolding init_inv_def ltl_def [symmetric] m_def [symmetric]
          using i True bj' tab' b0 mx2 [OF mx0] by (intro exI [of _ 0] exI [of _ "Suc bj"]) simp
        moreover have "2 * (lhd - (ltl + Suc bj)) + (i - ltl) < 2 * (lhd - j) + (i - ltl)"
          using bj' lhd by (simp add: j)
        ultimately show ?thesis using st False by (simp add: lhd_def ltl_def)
      qed
    next
      case bpos: False
      with lt have q: "1 \<le> bi \<and> bi \<le> bj" by simp
      with tab obtain v where v: "t (bi - 1) = Some v" and bv: "border w (unat v) bi"
        and mv: "\<forall>k. border w k bi \<longrightarrow> k \<le> unat v"
        unfolding table_ok_def by blast
      have st: "kmp_init_step w (t, i, j) = Some (t, ltl + unat v, j)"
        using False bpos v
        by (simp add: kmp_init_step_def pi pj Let_def ltl_def [symmetric] ix)
      from bj lhd have jn: "j \<noteq> lhd" by (simp add: j)
      note vlt = border_lt [OF bv]
      have b': "border w (unat v) bj" using bv bor by (rule border_trans)
      have mx': "\<forall>k. border w k (Suc bj) \<longrightarrow> k \<le> Suc (unat v)"
      proof (intro allI impI)
        fix k assume k: "border w k (Suc bj)"
        with mx have kle: "k \<le> Suc bi" by simp
        have "k \<noteq> Suc bi"
        proof
          assume "k = Suc bi"
          with k have "pat_at w bi = pat_at w bj" by (simp add: border_last)
          with False show False by simp
        qed
        with kle have kbi: "k \<le> bi" by simp
        show "k \<le> Suc (unat v)"
        proof (cases k)
          case 0
          then show ?thesis by simp
        next
          case (Suc k')
          with k have "border w k' bj" by (simp add: border_pred)
          moreover from Suc kbi have "k' < bi" by simp
          ultimately have "border w k' bi" using bor by (intro border_of_border [of w k' bj bi])
          with mv Suc show ?thesis by simp
        qed
      qed
      have "init_inv w t (ltl + unat v) j"
        unfolding init_inv_def ltl_def [symmetric] m_def [symmetric]
        using j vlt lt bj tab b' mx'
        by (intro exI [of _ "unat v"] exI [of _ bj]) simp
      moreover have "2 * (lhd - j) + (ltl + unat v - ltl) < 2 * (lhd - j) + (i - ltl)"
        using vlt by (simp add: i)
      ultimately show ?thesis using st jn by (simp add: lhd_def ltl_def)
    qed
  qed
qed

lemma kmp_init_loop_total:
  assumes sz: "ring_size (lookahead w) \<le> 256"
    and inv: "init_inv w t i j"
  shows "\<exists>t'. kmp_init_loop w (t, i, j) = Some t' \<and> table_ok w t' (ring_size (lookahead w))"
  using inv
proof (induction "2 * (hd_r (lookahead w) - j) + (i - tl_r (lookahead w))"
    arbitrary: t i j rule: less_induct)
  case less
  from kmp_init_step_inv [OF sz less.prems] obtain t' i' j' where
    st: "kmp_init_step w (t, i, j) = Some (t', i', j')"
    and c: "if j' = hd_r (lookahead w) then table_ok w t' (ring_size (lookahead w))
      else init_inv w t' i' j' \<and>
           2 * (hd_r (lookahead w) - j') + (i' - tl_r (lookahead w))
             < 2 * (hd_r (lookahead w) - j) + (i - tl_r (lookahead w))"
    by blast
  show ?case
  proof (cases "j' = hd_r (lookahead w)")
    case True
    with st c show ?thesis by (subst kmp_init_loop.simps) simp
  next
    case False
    with c have "init_inv w t' i' j'" and
      "2 * (hd_r (lookahead w) - j') + (i' - tl_r (lookahead w))
         < 2 * (hd_r (lookahead w) - j) + (i - tl_r (lookahead w))" by simp_all
    from less.hyps [OF this(2,1)] st False show ?thesis
      by (subst kmp_init_loop.simps) simp
  qed
qed

lemma kmp_init_total:
  assumes sz: "ring_size (lookahead w) \<le> 256"
  shows "\<exists>a. kmp_init Map.empty w = Some a \<and> table_ok w a (ring_size (lookahead w) - 1)"
proof (cases "ring_size (lookahead w) < 2")
  case True
  then have "ring_size (lookahead w) - 1 = 0" by simp
  with True show ?thesis by (simp add: kmp_init_def table_ok_def)
next
  case False
  let ?ltl = "tl_r (lookahead w)"
  let ?t = "Map.empty(0 \<mapsto> (0::byte))"
  have t1: "table_ok w ?t 1"
    unfolding table_ok_def by (auto simp: border_def)
  have "init_inv w ?t ?ltl (?ltl + 1)"
    unfolding init_inv_def
    using False t1 by (intro exI [of _ 0] exI [of _ 1]) (auto simp: border_def)
  from kmp_init_loop_total [OF sz this] obtain a where
    "kmp_init_loop w (?t, ?ltl, ?ltl + 1) = Some a" "table_ok w a (ring_size (lookahead w))"
    by blast
  with False show ?thesis by (auto simp: kmp_init_def Let_def intro: table_ok_mono)
qed

section \<open>KMP search: the scan\<close>

text \<open>The first \<open>l\<close> bytes of the lookahead equal the \<open>l\<close> bytes of the text that start
  \<open>off\<close> bytes after the tail of the dictionary.\<close>

definition is_match :: "wnd \<Rightarrow> nat \<Rightarrow> nat \<Rightarrow> bool" where
  "is_match w off l \<longleftrightarrow>
     l \<le> ring_size (lookahead w) \<and> (\<forall>x<l. pat_at w x = text_at w (off + x))"

text \<open>The best pair \<open>p\<close> among the offsets below \<open>off\<close>.\<close>

definition pair_ok :: "wnd \<Rightarrow> pair \<Rightarrow> nat \<Rightarrow> bool" where
  "pair_ok w p off \<longleftrightarrow>
     (l_p p = 0 \<and> o_p p = 0 \<or> 1 \<le> l_p p \<and> o_p p < off \<and> is_match w (o_p p) (l_p p)) \<and>
     (\<forall>o' l'. o' < off \<and> is_match w o' l' \<longrightarrow> l' \<le> l_p p)"

text \<open>The state \<open>(p, i, j)\<close> at the head of the loop of \<open>kmp_search\<close>: \<open>l\<close> bytes of the
  pattern match at the offset \<open>off\<close> of the text, which is within the dictionary or at its
  end.\<close>

definition search_inv :: "wnd \<Rightarrow> pair \<Rightarrow> nat \<Rightarrow> nat \<Rightarrow> bool" where
  "search_inv w p i j \<longleftrightarrow>
     (\<exists>l off. i = tl_r (lookahead w) + l \<and> j = tl_r (dictionary w) + off + l \<and>
        l < ring_size (lookahead w) \<and> off \<le> ring_size (dictionary w) \<and>
        (\<forall>x<l. pat_at w x = text_at w (off + x)) \<and> pair_ok w p off)"

text \<open>What \<open>kmp_search\<close> returns: a match at an offset within the dictionary, as long as
  any match at such an offset.\<close>

definition kmp_post :: "wnd \<Rightarrow> pair \<Rightarrow> bool" where
  "kmp_post w p \<longleftrightarrow>
     is_match w (o_p p) (l_p p) \<and>
     (1 \<le> l_p p \<longrightarrow> o_p p < ring_size (dictionary w)) \<and>
     (l_p p = 0 \<longrightarrow> o_p p = 0) \<and>
     (\<forall>o' l'. o' < ring_size (dictionary w) \<and> is_match w o' l' \<longrightarrow> l' \<le> l_p p)"

lemma text_at_lookahead:
  assumes "wnd_inv w"
  shows "text_at w (ring_size (dictionary w) + k) = pat_at w k"
proof -
  from assms have "tl_r (dictionary w) + ring_size (dictionary w) = tl_r (lookahead w)"
    by (simp add: wnd_inv_def ring_size_def)
  then show ?thesis by (simp add: text_at_def pat_at_def add.assoc [symmetric])
qed

lemma pair_ok_post:
  assumes "pair_ok w p (ring_size (dictionary w))"
  shows "kmp_post w p"
  using assms unfolding pair_ok_def kmp_post_def
  by (auto simp: is_match_def)

lemma kmp_search_step_inv:
  assumes winv: "wnd_inv w"
    and tab: "table_ok w a (ring_size (lookahead w) - 1)"
    and inv: "search_inv w p i j"
  shows "\<exists>r. kmp_search_step w a (p, i, j) = Some r \<and>
     (case r of
        Inl p' \<Rightarrow> kmp_post w p'
      | Inr (p', i', j') \<Rightarrow>
          search_inv w p' i' j' \<and>
          2 * (hd_r (lookahead w) - j') + (i' - tl_r (lookahead w))
            < 2 * (hd_r (lookahead w) - j) + (i - tl_r (lookahead w)))"
proof -
  define ltl where "ltl = tl_r (lookahead w)"
  define lhd where "lhd = hd_r (lookahead w)"
  define dtl where "dtl = tl_r (dictionary w)"
  define m where "m = ring_size (lookahead w)"
  define dsz where "dsz = ring_size (dictionary w)"
  from inv obtain l off where i: "i = ltl + l" and j: "j = dtl + off + l"
    and lm: "l < m" and od: "off \<le> dsz"
    and mt: "\<forall>x<l. pat_at w x = text_at w (off + x)" and pk: "pair_ok w p off"
    unfolding search_inv_def ltl_def dtl_def m_def dsz_def by blast
  from winv have adj: "dtl + dsz = ltl" and lhd: "lhd = ltl + m"
    unfolding wnd_inv_def ring_size_def dtl_def dsz_def ltl_def lhd_def m_def by simp_all
  from lm od adj lhd have jlt: "j < lhd" by (simp add: j)
  have pi: "bf w (ring_mask i) = pat_at w l"
    by (simp add: pat_at_def i ltl_def)
  have pj: "bf w (ring_mask j) = text_at w (off + l)"
    by (simp add: text_at_def j dtl_def add.assoc)
  have e1: "i - tl_r (lookahead w) = l" by (simp add: i ltl_def)
  have e2: "j - tl_r (dictionary w) - l = off" by (simp add: j dtl_def)
  have e3: "(j \<noteq> hd_r (lookahead w)) = True" using jlt by (simp add: lhd_def)
  have e4: "(i + 1 = hd_r (lookahead w)) = (Suc l = m)" using lhd by (simp add: i lhd_def)
  have e5: "(i = tl_r (lookahead w)) = (l = 0)" by (simp add: i ltl_def)
  have e6: "ring_size (dictionary w) = dsz" by (simp add: dsz_def)
  have nf: "kmp_search_step w a (p, i, j) =
     (if off = dsz then Some (Inl p)
      else if pat_at w l = text_at w (off + l) then
        (if Suc l = m then Some (Inl \<lparr>o_p = off, l_p = l + 1\<rparr>)
         else Some (Inr (p, i + 1, j + 1)))
      else if l = 0 then Some (Inr (p, i, j + 1))
      else
        (case a (l - 1) of
           None \<Rightarrow> None
         | Some v \<Rightarrow>
             Some (Inr (if l > l_p p then \<lparr>o_p = off, l_p = l\<rparr> else p,
                        tl_r (lookahead w) + unat v, j))))"
    unfolding kmp_search_step_def Let_def prod.case e1 e2 e3 e4 e5 e6 pi pj if_True
    by (rule refl)
  show ?thesis
  proof (cases "off = dsz")
    case True
    then have "kmp_search_step w a (p, i, j) = Some (Inl p)" by (simp add: nf)
    moreover from pk True have "kmp_post w p" by (simp add: pair_ok_post dsz_def)
    ultimately show ?thesis by simp
  next
    case False
    with od have olt: "off < dsz" by simp
    show ?thesis
    proof (cases "pat_at w l = text_at w (off + l)")
      case True
      then have mt': "\<forall>x<Suc l. pat_at w x = text_at w (off + x)"
        using mt by (auto simp: less_Suc_eq)
      show ?thesis
      proof (cases "i + 1 = lhd")
        case full: True
        with lhd have sl: "Suc l = m" by (simp add: i)
        let ?p = "\<lparr>o_p = off, l_p = l + 1\<rparr>"
        from False True sl have "kmp_search_step w a (p, i, j) = Some (Inl ?p)"
          by (simp add: nf)
        moreover have "kmp_post w ?p"
          unfolding kmp_post_def is_match_def dsz_def [symmetric] m_def [symmetric]
          using sl mt' olt by auto
        ultimately show ?thesis by simp
      next
        case nfull: False
        with lhd lm have sl: "Suc l < m" by (simp add: i)
        from False True sl have "kmp_search_step w a (p, i, j) = Some (Inr (p, i + 1, j + 1))"
          by (simp add: nf)
        moreover have "search_inv w p (i + 1) (j + 1)"
          unfolding search_inv_def ltl_def [symmetric] dtl_def [symmetric] m_def [symmetric]
            dsz_def [symmetric]
          using sl od mt' pk by (intro exI [of _ "Suc l"] exI [of _ off]) (simp add: i j)
        moreover have "2 * (lhd - (j + 1)) + (i + 1 - ltl) < 2 * (lhd - j) + (i - ltl)"
          using jlt by (simp add: i)
        ultimately show ?thesis by (simp add: lhd_def ltl_def)
      qed
    next
      case mis: False
      have at_off: "l' \<le> l" if "is_match w off l'" for l'
      proof (rule ccontr)
        assume "\<not> l' \<le> l"
        then have "l < l'" by simp
        with that have "pat_at w l = text_at w (off + l)" by (simp add: is_match_def)
        with mis show False by simp
      qed
      show ?thesis
      proof (cases "l = 0")
        case True
        from False mis True have "kmp_search_step w a (p, i, j) = Some (Inr (p, i, j + 1))"
          by (simp add: nf)
        moreover have "pair_ok w p (Suc off)"
          unfolding pair_ok_def
        proof (intro conjI allI impI)
          from pk show "l_p p = 0 \<and> o_p p = 0 \<or>
              1 \<le> l_p p \<and> o_p p < Suc off \<and> is_match w (o_p p) (l_p p)"
            unfolding pair_ok_def by auto
          fix o' l' assume a: "o' < Suc off \<and> is_match w o' l'"
          show "l' \<le> l_p p"
          proof (cases "o' = off")
            case True
            with a at_off \<open>l = 0\<close> show ?thesis by auto
          next
            case False
            with a have "o' < off" by simp
            with a pk show ?thesis unfolding pair_ok_def by blast
          qed
        qed
        then have "search_inv w p i (j + 1)"
          unfolding search_inv_def ltl_def [symmetric] dtl_def [symmetric] m_def [symmetric]
            dsz_def [symmetric]
          using True lm olt by (intro exI [of _ 0] exI [of _ "Suc off"]) (simp add: i j)
        moreover have "2 * (lhd - (j + 1)) + (i - ltl) < 2 * (lhd - j) + (i - ltl)"
          using jlt by simp
        ultimately show ?thesis by (simp add: lhd_def ltl_def)
      next
        case lpos: False
        with lm have "1 \<le> l \<and> l \<le> m - 1" by simp
        with tab obtain v where v: "a (l - 1) = Some v" and bv: "border w (unat v) l"
          and mv: "\<forall>k. border w k l \<longrightarrow> k \<le> unat v"
          unfolding table_ok_def m_def by blast
        define b where "b = unat v"
        note blt = border_lt [OF bv, folded b_def]
        let ?p = "if l > l_p p then \<lparr>o_p = off, l_p = l\<rparr> else p"
        define off' where "off' = off + (l - b)"
        from False mis lpos v
        have st: "kmp_search_step w a (p, i, j) = Some (Inr (?p, ltl + b, j))"
          by (simp add: nf b_def ltl_def)
        have j': "j = dtl + off' + b" using blt by (simp add: j off'_def)
        have od': "off' \<le> dsz"
        proof (rule ccontr)
          assume "\<not> off' \<le> dsz"
          then have gt: "dsz < off + (l - b)" by (simp add: off'_def)
          define d where "d = dsz - off"
          from olt have dpos: "0 < d" and offd: "off + d = dsz" by (simp_all add: d_def)
          from gt offd blt have dl: "d < l" and bl: "b < l - d" by arith+
          have "border w (l - d) l"
            unfolding border_def
          proof (intro conjI allI impI)
            from dpos dl show "l - d < l" by simp
            fix x assume x: "x < l - d"
            then have "d + x < l" by simp
            with mt have "pat_at w (d + x) = text_at w (off + (d + x))" by simp
            also have "off + (d + x) = dsz + x" using offd by simp
            also have "text_at w (dsz + x) = pat_at w x"
              unfolding dsz_def by (rule text_at_lookahead [OF winv])
            finally show "pat_at w x = pat_at w (l - (l - d) + x)" using dl by simp
          qed
          with mv have "l - d \<le> b" by (simp add: b_def)
          with bl show False by simp
        qed
        have mt': "\<forall>x<b. pat_at w x = text_at w (off' + x)"
        proof (intro allI impI)
          fix x assume x: "x < b"
          with blt have "l - b + x < l" by simp
          with mt have "pat_at w (l - b + x) = text_at w (off + (l - b + x))" by simp
          moreover from border_nth [OF bv, folded b_def, OF x]
          have "pat_at w x = pat_at w (l - b + x)" .
          ultimately show "pat_at w x = text_at w (off' + x)"
            by (simp add: off'_def add.assoc)
        qed
        have lp: "l \<le> l_p ?p" "l_p p \<le> l_p ?p" by simp_all
        have pk': "pair_ok w ?p off'"
          unfolding pair_ok_def
        proof (intro conjI allI impI)
          have "is_match w off l" using lm mt by (simp add: is_match_def m_def)
          moreover have "off < off'" using blt by (simp add: off'_def)
          ultimately show "l_p ?p = 0 \<and> o_p ?p = 0 \<or>
              1 \<le> l_p ?p \<and> o_p ?p < off' \<and> is_match w (o_p ?p) (l_p ?p)"
            using pk lpos unfolding pair_ok_def by auto
        next
          fix o' l' assume a: "o' < off' \<and> is_match w o' l'"
          consider "o' < off" | "o' = off" | "off < o'" by arith
          then show "l' \<le> l_p ?p"
          proof cases
            case 1
            with a pk have "l' \<le> l_p p" unfolding pair_ok_def by blast
            with lp show ?thesis by simp
          next
            case 2
            with a at_off have "l' \<le> l" by simp
            with lp show ?thesis by simp
          next
            case 3
            define e where "e = o' - off"
            define k where "k = l - e"
            from a have "o' < off + (l - b)" by (simp add: off'_def)
            with 3 blt have e: "0 < e" "e < l - b" "o' = off + e"
              unfolding e_def by arith+
            then have k: "b < k" "k < l" "l - k = e" unfolding k_def by arith+
            have "l' < k"
            proof (rule ccontr)
              assume "\<not> l' < k"
              then have kl: "k \<le> l'" by simp
              have "border w k l"
                unfolding border_def
              proof (intro conjI allI impI)
                show "k < l" by fact
                fix x assume x: "x < k"
                with kl a have "pat_at w x = text_at w (o' + x)" by (simp add: is_match_def)
                also have "o' + x = off + (e + x)" using e by simp
                also from x k have "e + x < l" by (simp add: k_def)
                with mt have "text_at w (off + (e + x)) = pat_at w (e + x)" by simp
                finally show "pat_at w x = pat_at w (l - k + x)" using k by simp
              qed
              with mv have "k \<le> b" by (simp add: b_def)
              with k show False by simp
            qed
            with k lp show ?thesis by simp
          qed
        qed
        from blt lm have "b < m" by simp
        with od' mt' pk' have "search_inv w ?p (ltl + b) j"
          unfolding search_inv_def ltl_def [symmetric] dtl_def [symmetric] m_def [symmetric]
            dsz_def [symmetric]
          by (intro exI [of _ b] exI [of _ off']) (simp add: j')
        moreover have "2 * (lhd - j) + (ltl + b - ltl) < 2 * (lhd - j) + (i - ltl)"
          using blt by (simp add: i)
        ultimately show ?thesis using st by (simp add: lhd_def ltl_def)
      qed
    qed
  qed
qed

lemma kmp_search_loop_total:
  assumes winv: "wnd_inv w"
    and tab: "table_ok w a (ring_size (lookahead w) - 1)"
    and inv: "search_inv w p i j"
  shows "\<exists>p'. kmp_search_loop w a (p, i, j) = Some p' \<and> kmp_post w p'"
  using inv
proof (induction "2 * (hd_r (lookahead w) - j) + (i - tl_r (lookahead w))"
    arbitrary: p i j rule: less_induct)
  case less
  from kmp_search_step_inv [OF winv tab less.prems] obtain r where
    st: "kmp_search_step w a (p, i, j) = Some r"
    and c: "case r of
        Inl p' \<Rightarrow> kmp_post w p'
      | Inr (p', i', j') \<Rightarrow>
          search_inv w p' i' j' \<and>
          2 * (hd_r (lookahead w) - j') + (i' - tl_r (lookahead w))
            < 2 * (hd_r (lookahead w) - j) + (i - tl_r (lookahead w))"
    by blast
  show ?case
  proof (cases r)
    case (Inl p')
    with st c show ?thesis by (subst kmp_search_loop.simps) simp
  next
    case (Inr x)
    obtain p' i' j' where x: "x = (p', i', j')" by (cases x) auto
    with c Inr have "search_inv w p' i' j'" and
      "2 * (hd_r (lookahead w) - j') + (i' - tl_r (lookahead w))
         < 2 * (hd_r (lookahead w) - j) + (i - tl_r (lookahead w))" by simp_all
    from less.hyps [OF this(2,1)] st Inr x show ?thesis
      by (subst kmp_search_loop.simps) simp
  qed
qed

lemma kmp_search_total:
  assumes winv: "wnd_inv w" and ne: "1 \<le> ring_size (lookahead w)"
  shows "\<exists>p. kmp_search w = Some p \<and> kmp_post w p"
proof -
  from winv have "ring_size (lookahead w) \<le> 256" by (simp add: wnd_inv_def RING_SIZE_256)
  from kmp_init_total [OF this] obtain a where
    a: "kmp_init Map.empty w = Some a" and tab: "table_ok w a (ring_size (lookahead w) - 1)"
    by blast
  have "search_inv w \<lparr>o_p = 0, l_p = 0\<rparr> (tl_r (lookahead w)) (tl_r (dictionary w))"
    unfolding search_inv_def pair_ok_def
    using ne by (intro exI [of _ 0]) simp
  from kmp_search_loop_total [OF winv tab this] a show ?thesis
    by (simp add: kmp_search_def)
qed

section \<open>The result of the search\<close>

lemma is_match_prefix: "is_match w off l \<Longrightarrow> l' \<le> l \<Longrightarrow> is_match w off l'"
  by (simp add: is_match_def)

text \<open>
  Claim C4, as the code has it.  On a window that satisfies the invariants and has a
  non-empty lookahead, \<open>kmp_search\<close> returns a pair \<open>(o, l)\<close>: the first \<open>l\<close> bytes of
  the lookahead equal the \<open>l\<close> bytes of the text (the dictionary followed by the
  lookahead) that start at \<open>dict.tl + o\<close>; \<open>o < dict.size\<close> when \<open>l \<ge> 1\<close>; no match
  at an offset below \<open>dict.size\<close> is longer; and when no byte of the dictionary starts a
  match, the pair is \<open>(0, 0)\<close>.  This holds for a lookahead of one byte too.
\<close>

theorem C4_kmp_longest_match:
  "wnd_inv w \<and> 1 \<le> ring_size (lookahead w) \<longrightarrow>
     (\<exists>p. kmp_search w = Some p \<and>
        is_match w (o_p p) (l_p p) \<and>
        (1 \<le> l_p p \<longrightarrow> o_p p < ring_size (dictionary w)) \<and>
        (\<forall>o' l'. o' < ring_size (dictionary w) \<and> is_match w o' l' \<longrightarrow> l' \<le> l_p p) \<and>
        ((\<forall>o'. o' < ring_size (dictionary w) \<longrightarrow> \<not> is_match w o' 1) \<longrightarrow>
           l_p p = 0 \<and> o_p p = 0))"
proof
  assume a: "wnd_inv w \<and> 1 \<le> ring_size (lookahead w)"
  then obtain p where p: "kmp_search w = Some p" and post: "kmp_post w p"
    using kmp_search_total by blast
  from post have m: "is_match w (o_p p) (l_p p)"
    and o: "1 \<le> l_p p \<longrightarrow> o_p p < ring_size (dictionary w)"
    and z: "l_p p = 0 \<longrightarrow> o_p p = 0"
    and mx: "\<forall>o' l'. o' < ring_size (dictionary w) \<and> is_match w o' l' \<longrightarrow> l' \<le> l_p p"
    unfolding kmp_post_def by blast+
  have none: "l_p p = 0 \<and> o_p p = 0"
    if n: "\<forall>o'. o' < ring_size (dictionary w) \<longrightarrow> \<not> is_match w o' 1"
  proof -
    have "l_p p = 0"
    proof (rule ccontr)
      assume "l_p p \<noteq> 0"
      then have l: "1 \<le> l_p p" by simp
      with m have "is_match w (o_p p) 1" by (rule is_match_prefix)
      with o l n show False by blast
    qed
    with z show ?thesis by simp
  qed
  from p m o mx none
  show "\<exists>p. kmp_search w = Some p \<and>
        is_match w (o_p p) (l_p p) \<and>
        (1 \<le> l_p p \<longrightarrow> o_p p < ring_size (dictionary w)) \<and>
        (\<forall>o' l'. o' < ring_size (dictionary w) \<and> is_match w o' l' \<longrightarrow> l' \<le> l_p p) \<and>
        ((\<forall>o'. o' < ring_size (dictionary w) \<longrightarrow> \<not> is_match w o' 1) \<longrightarrow>
           l_p p = 0 \<and> o_p p = 0)"
    by blast
qed

text \<open>A window that holds the dictionary \<open>A\<close> and the lookahead \<open>A\<close>, as after the first
  token of the input \<open>AA\<close>, and one with the lookahead \<open>AAA\<close>.\<close>

definition wnd_a_a :: wnd where
  "wnd_a_a = \<lparr>dictionary = \<lparr>hd_r = 1, tl_r = 0\<rparr>, lookahead = \<lparr>hd_r = 2, tl_r = 1\<rparr>,
               bf = (\<lambda>k. 0x41)\<rparr>"

definition wnd_a_aaa :: wnd where
  "wnd_a_aaa = \<lparr>dictionary = \<lparr>hd_r = 1, tl_r = 0\<rparr>, lookahead = \<lparr>hd_r = 4, tl_r = 1\<rparr>,
                 bf = (\<lambda>k. 0x41)\<rparr>"

lemma wnd_a_a_search: "kmp_search wnd_a_a = Some \<lparr>o_p = 0, l_p = 1\<rparr>"
  by (simp add: lzpi_eval wnd_a_a_def)

lemma wnd_a_aaa_search: "kmp_search wnd_a_aaa = Some \<lparr>o_p = 0, l_p = 3\<rparr>"
  by (simp add: lzpi_eval wnd_a_aaa_def)

lemma wnd_a_a_inv: "wnd_inv wnd_a_a" "ring_size (lookahead wnd_a_a) = 1"
  "ring_size (dictionary wnd_a_a) = 1"
  by (simp_all add: wnd_inv_def wnd_a_a_def ring_size_def RING_SIZE_256)

lemma wnd_a_aaa_inv: "wnd_inv wnd_a_aaa" "ring_size (lookahead wnd_a_aaa) = 3"
  "ring_size (dictionary wnd_a_aaa) = 1"
  by (simp_all add: wnd_inv_def wnd_a_aaa_def ring_size_def RING_SIZE_256)

theorem C4_kmp_longest_match_witness:
  "wnd_inv wnd_a_aaa \<and> 1 \<le> ring_size (lookahead wnd_a_aaa) \<and>
   kmp_search wnd_a_aaa = Some \<lparr>o_p = 0, l_p = 3\<rparr> \<and>
   is_match wnd_a_aaa 0 3 \<and> (0::nat) < ring_size (dictionary wnd_a_aaa)"
proof -
  from C4_kmp_longest_match [of wnd_a_aaa] wnd_a_aaa_inv
  obtain p where "kmp_search wnd_a_aaa = Some p" "is_match wnd_a_aaa (o_p p) (l_p p)"
    by auto
  with wnd_a_aaa_search have "is_match wnd_a_aaa 0 3" by simp
  with wnd_a_aaa_inv wnd_a_aaa_search show ?thesis by simp
qed

text \<open>With one byte in the lookahead the search is not skipped: the dictionary \<open>A\<close> and
  the lookahead \<open>A\<close> give a match of length 1, not 0.\<close>

theorem C4_kmp_longest_match_counterexample:
  "ring_size (lookahead wnd_a_a) < 2 \<and> kmp_search wnd_a_a = Some \<lparr>o_p = 0, l_p = 1\<rparr> \<and>
   l_p \<lparr>o_p = 0, l_p = 1\<rparr> \<noteq> 0"
  using wnd_a_a_search wnd_a_a_inv by simp


section \<open>The match selector\<close>

text \<open>The match of \<open>p\<close> is not worth a back-reference: it is shorter than two bytes, or
  it is two bytes long, the lookahead has more than three bytes, the byte at \<open>look.tl + 2\<close>
  equals the byte at \<open>look.tl\<close>, and the byte at \<open>look.tl + 3\<close> equals the byte at
  \<open>look.tl\<close> or the byte at \<open>dict.tl + l\<close>.\<close>

definition not_worth :: "wnd \<Rightarrow> pair \<Rightarrow> bool" where
  "not_worth w p \<longleftrightarrow>
     l_p p < 2 \<or>
     l_p p = 2 \<and> ring_size (lookahead w) > 3 \<and> pat_at w 2 = pat_at w 0 \<and>
       (pat_at w 3 = pat_at w 0 \<or> pat_at w 3 = text_at w (l_p p))"

lemma match_unfold:
  assumes "kmp_search w = Some p"
  shows "match w =
     (if not_worth w p then Some (\<lparr>o_m = pat_at w 0, l_m = 0\<rparr>, wnd_shift w 1)
      else Some (\<lparr>o_m = of_nat (ring_size (dictionary w)) - of_nat (o_p p) - 1,
                   l_m = of_nat (l_p p) - 1\<rparr>, wnd_shift w (l_p p)))"
proof -
  have z: "bf w (ring_mask (tl_r (lookahead w))) = pat_at w 0"
    and p2: "bf w (ring_mask (tl_r (lookahead w) + 2)) = pat_at w 2"
    and p3: "bf w (ring_mask (tl_r (lookahead w) + 3)) = pat_at w 3"
    and t: "bf w (ring_mask (tl_r (dictionary w) + l_p p)) = text_at w (l_p p)"
    by (simp_all add: pat_at_def text_at_def)
  show ?thesis
    unfolding match_def assms option.case Let_def z p2 p3 t not_worth_def
    by (rule refl)
qed

lemma byte_cast_off:
  assumes "off < dsz" and "dsz \<le> 256"
  shows "unat (of_nat dsz - of_nat off - 1 :: byte) = dsz - off - 1"
proof -
  from assms(1) have "(of_nat (dsz - off - 1) :: byte) = of_nat (dsz - off) - of_nat 1"
    by (intro of_nat_diff) simp
  also from assms(1) have "(of_nat (dsz - off) :: byte) = of_nat dsz - of_nat off"
    by (intro of_nat_diff) simp
  finally have "(of_nat dsz - of_nat off - 1 :: byte) = of_nat (dsz - off - 1)" by simp
  moreover from assms have "dsz - off - 1 < 256" by simp
  ultimately show ?thesis by (simp only: byte_unat_of_nat)
qed

lemma byte_cast_len:
  assumes "1 \<le> l" and "l \<le> 256"
  shows "unat (of_nat l - 1 :: byte) = l - 1"
proof -
  from assms(1) have "(of_nat (l - 1) :: byte) = of_nat l - of_nat 1"
    by (intro of_nat_diff) simp
  then have "(of_nat l - 1 :: byte) = of_nat (l - 1)" by simp
  moreover from assms have "l - 1 < 256" by simp
  ultimately show ?thesis by (simp only: byte_unat_of_nat)
qed

text \<open>What \<open>match\<close> returns on a window with a non-empty lookahead.\<close>

lemma match_total:
  assumes winv: "wnd_inv w" and ne: "1 \<le> ring_size (lookahead w)"
  shows "\<exists>p. kmp_search w = Some p \<and> kmp_post w p \<and>
     (if not_worth w p then
        match w = Some (\<lparr>o_m = pat_at w 0, l_m = 0\<rparr>, wnd_shift w 1)
      else
        (\<exists>mt. match w = Some (mt, wnd_shift w (l_p p)) \<and> l_m mt \<noteq> 0 \<and>
           unat (o_m mt) = ring_size (dictionary w) - o_p p - 1 \<and>
           unat (l_m mt) = l_p p - 1 \<and>
           o_p p < ring_size (dictionary w) \<and> 2 \<le> l_p p \<and>
           l_p p \<le> ring_size (lookahead w)))"
proof -
  from kmp_search_total [OF winv ne] obtain p where
    p: "kmp_search w = Some p" and post: "kmp_post w p" by blast
  note mu = match_unfold [OF p]
  from winv have d256: "ring_size (dictionary w) \<le> 256" and l256: "ring_size (lookahead w) \<le> 256"
    by (simp_all add: wnd_inv_def RING_SIZE_256)
  show ?thesis
  proof (cases "not_worth w p")
    case True
    with p post mu show ?thesis by simp
  next
    case False
    then have l2: "2 \<le> l_p p" by (simp add: not_worth_def)
    with post have o: "o_p p < ring_size (dictionary w)"
      and lm: "l_p p \<le> ring_size (lookahead w)"
      by (simp_all add: kmp_post_def is_match_def)
    define mt :: match where
      "mt = \<lparr>o_m = of_nat (ring_size (dictionary w)) - of_nat (o_p p) - 1,
              l_m = of_nat (l_p p) - 1\<rparr>"
    have uo: "unat (o_m mt) = ring_size (dictionary w) - o_p p - 1"
      using byte_cast_off [OF o d256] by (simp add: mt_def)
    have ul: "unat (l_m mt) = l_p p - 1"
      using byte_cast_len [of "l_p p"] l2 lm l256 by (simp add: mt_def)
    have nz: "l_m mt \<noteq> 0"
    proof
      assume "l_m mt = 0"
      with ul l2 show False by simp
    qed
    from mu False have m: "match w = Some (mt, wnd_shift w (l_p p))" by (simp add: mt_def)
    have "\<exists>mt. match w = Some (mt, wnd_shift w (l_p p)) \<and> l_m mt \<noteq> 0 \<and>
           unat (o_m mt) = ring_size (dictionary w) - o_p p - 1 \<and>
           unat (l_m mt) = l_p p - 1 \<and>
           o_p p < ring_size (dictionary w) \<and> 2 \<le> l_p p \<and>
           l_p p \<le> ring_size (lookahead w)"
      using m nz uo ul o l2 lm by (intro exI [of _ mt]) simp
    with False p post show ?thesis by simp
  qed
qed

text \<open>What \<open>wnd_shift\<close> does to a window that satisfies the invariants, for \<open>n\<close> bytes
  of the lookahead: the tail of the lookahead and the head of the dictionary advance by
  \<open>n\<close>, so the lookahead loses its first \<open>n\<close> bytes and the dictionary gains them; the
  dictionary keeps at most \<open>RING_SIZE\<close> bytes, the last ones; the head of the lookahead
  and the bytes of the buffer stay.\<close>

lemma wnd_shift_effect:
  assumes "wnd_inv w" and "n \<le> ring_size (lookahead w)"
  shows "tl_r (lookahead (wnd_shift w n)) = tl_r (lookahead w) + n"
    and "hd_r (lookahead (wnd_shift w n)) = hd_r (lookahead w)"
    and "ring_size (lookahead (wnd_shift w n)) = ring_size (lookahead w) - n"
    and "hd_r (dictionary (wnd_shift w n)) = hd_r (dictionary w) + n"
    and "ring_size (dictionary (wnd_shift w n)) = min RING_SIZE (ring_size (dictionary w) + n)"
    and "bf (wnd_shift w n) = bf w"
  using assms
  by (auto simp: wnd_inv_def wnd_shift_def Let_def ring_size_def ring_capacity_def
      RING_SIZE_256)

text \<open>
  Claim C5.  On a window that satisfies the invariants and has a non-empty lookahead,
  with \<open>(o, l)\<close> the result of the search: when the match is not worth it, \<open>match\<close>
  returns the literal (the byte at \<open>look.tl\<close>, length field 0) and consumes \<open>n = 1\<close>
  byte; otherwise it returns a back-reference whose stored offset is \<open>dict.size - o - 1\<close>
  and whose stored length is \<open>l - 1\<close> (not 0), and consumes \<open>n = l\<close> bytes.  In either
  case the window returned is the window shifted by \<open>n\<close>: \<open>look.tl\<close> and \<open>dict.hd\<close> have
  advanced by \<open>n\<close>, the lookahead is \<open>n\<close> bytes shorter, the dictionary is \<open>n\<close> bytes
  longer up to \<open>RING_SIZE\<close>, and \<open>look.hd\<close> and the buffer are as before.
\<close>

theorem C5_match_selector:
  "wnd_inv w \<and> 1 \<le> ring_size (lookahead w) \<longrightarrow>
     (\<exists>p mt n w'. kmp_search w = Some p \<and> match w = Some (mt, w') \<and>
        (if not_worth w p then
           mt = \<lparr>o_m = pat_at w 0, l_m = 0\<rparr> \<and> n = 1
         else
           l_m mt \<noteq> 0 \<and>
           unat (o_m mt) = ring_size (dictionary w) - o_p p - 1 \<and>
           unat (l_m mt) = l_p p - 1 \<and>
           o_p p < ring_size (dictionary w) \<and> 2 \<le> l_p p \<and>
           l_p p \<le> ring_size (lookahead w) \<and> n = l_p p) \<and>
        w' = wnd_shift w n \<and>
        tl_r (lookahead w') = tl_r (lookahead w) + n \<and>
        hd_r (lookahead w') = hd_r (lookahead w) \<and>
        ring_size (lookahead w') = ring_size (lookahead w) - n \<and>
        hd_r (dictionary w') = hd_r (dictionary w) + n \<and>
        hd_r (dictionary w') = tl_r (lookahead w') \<and>
        ring_size (dictionary w') = min RING_SIZE (ring_size (dictionary w) + n) \<and>
        bf w' = bf w)"
  (is "?A \<longrightarrow> ?R")
proof
  assume ?A
  then have winv: "wnd_inv w" and ne: "1 \<le> ring_size (lookahead w)" by simp_all
  from winv have adj: "hd_r (dictionary w) = tl_r (lookahead w)" by (simp add: wnd_inv_def)
  from match_total [OF winv ne] obtain p where p: "kmp_search w = Some p"
    and m: "if not_worth w p then
        match w = Some (\<lparr>o_m = pat_at w 0, l_m = 0\<rparr>, wnd_shift w 1)
      else
        (\<exists>mt. match w = Some (mt, wnd_shift w (l_p p)) \<and> l_m mt \<noteq> 0 \<and>
           unat (o_m mt) = ring_size (dictionary w) - o_p p - 1 \<and>
           unat (l_m mt) = l_p p - 1 \<and>
           o_p p < ring_size (dictionary w) \<and> 2 \<le> l_p p \<and>
           l_p p \<le> ring_size (lookahead w))"
    by blast
  show ?R
  proof (cases "not_worth w p")
    case True
    with m have mw: "match w = Some (\<lparr>o_m = pat_at w 0, l_m = 0\<rparr>, wnd_shift w 1)" by simp
    note eff = wnd_shift_effect [OF winv ne]
    from p mw True eff adj show ?thesis
      by (intro exI [of _ p] exI [of _ "\<lparr>o_m = pat_at w 0, l_m = 0\<rparr>"] exI [of _ 1]
          exI [of _ "wnd_shift w 1"]) simp
  next
    case False
    with m obtain mt where mw: "match w = Some (mt, wnd_shift w (l_p p))"
      and f: "l_m mt \<noteq> 0" "unat (o_m mt) = ring_size (dictionary w) - o_p p - 1"
        "unat (l_m mt) = l_p p - 1" "o_p p < ring_size (dictionary w)" "2 \<le> l_p p"
      and ll: "l_p p \<le> ring_size (lookahead w)"
      by auto
    note eff = wnd_shift_effect [OF winv ll]
    from p mw False f ll eff adj show ?thesis
      by (intro exI [of _ p] exI [of _ mt] exI [of _ "l_p p"]
          exI [of _ "wnd_shift w (l_p p)"]) simp
  qed
qed

text \<open>The theorem on the dictionary \<open>A\<close> with the lookahead \<open>A\<close>, a literal that consumes
  one byte, and with the lookahead \<open>AAA\<close>, a back-reference that consumes the three.\<close>

theorem C5_match_selector_witness:
  "wnd_inv wnd_a_a \<and> 1 \<le> ring_size (lookahead wnd_a_a) \<and>
   kmp_search wnd_a_a = Some \<lparr>o_p = 0, l_p = 1\<rparr> \<and> not_worth wnd_a_a \<lparr>o_p = 0, l_p = 1\<rparr> \<and>
   (\<exists>w'. match wnd_a_a = Some (\<lparr>o_m = 0x41, l_m = 0\<rparr>, w') \<and>
      tl_r (lookahead w') = 2 \<and> hd_r (lookahead w') = 2 \<and> ring_size (lookahead w') = 0 \<and>
      hd_r (dictionary w') = 2 \<and> ring_size (dictionary w') = 2) \<and>
   wnd_inv wnd_a_aaa \<and> 1 \<le> ring_size (lookahead wnd_a_aaa) \<and>
   kmp_search wnd_a_aaa = Some \<lparr>o_p = 0, l_p = 3\<rparr> \<and>
   \<not> not_worth wnd_a_aaa \<lparr>o_p = 0, l_p = 3\<rparr> \<and>
   (\<exists>mt w'. match wnd_a_aaa = Some (mt, w') \<and> unat (o_m mt) = 0 \<and> unat (l_m mt) = 2 \<and>
      tl_r (lookahead w') = 4 \<and> hd_r (lookahead w') = 4 \<and> ring_size (lookahead w') = 0 \<and>
      hd_r (dictionary w') = 4 \<and> ring_size (dictionary w') = 4)"
proof -
  have n1: "not_worth wnd_a_a \<lparr>o_p = 0, l_p = 1\<rparr>" by (simp add: not_worth_def)
  have n3: "\<not> not_worth wnd_a_aaa \<lparr>o_p = 0, l_p = 3\<rparr>" by (simp add: not_worth_def)
  have p0: "pat_at wnd_a_a 0 = 0x41" by (simp add: pat_at_def wnd_a_a_def)
  have v1: "tl_r (lookahead wnd_a_a) = 1" "hd_r (lookahead wnd_a_a) = 2"
    "hd_r (dictionary wnd_a_a) = 1" "ring_size (dictionary wnd_a_a) = 1"
    by (simp_all add: wnd_a_a_def ring_size_def)
  have v3: "tl_r (lookahead wnd_a_aaa) = 1" "hd_r (lookahead wnd_a_aaa) = 4"
    "hd_r (dictionary wnd_a_aaa) = 1" "ring_size (dictionary wnd_a_aaa) = 1"
    by (simp_all add: wnd_a_aaa_def ring_size_def)
  from C5_match_selector [of wnd_a_a] wnd_a_a_inv wnd_a_a_search n1 p0 v1
  have m1: "\<exists>w'. match wnd_a_a = Some (\<lparr>o_m = 0x41, l_m = 0\<rparr>, w') \<and>
      tl_r (lookahead w') = 2 \<and> hd_r (lookahead w') = 2 \<and> ring_size (lookahead w') = 0 \<and>
      hd_r (dictionary w') = 2 \<and> ring_size (dictionary w') = 2"
    by (auto simp: RING_SIZE_256)
  from C5_match_selector [of wnd_a_aaa] wnd_a_aaa_inv wnd_a_aaa_search n3 v3
  have m3: "\<exists>mt w'. match wnd_a_aaa = Some (mt, w') \<and> unat (o_m mt) = 0 \<and>
      unat (l_m mt) = 2 \<and>
      tl_r (lookahead w') = 4 \<and> hd_r (lookahead w') = 4 \<and> ring_size (lookahead w') = 0 \<and>
      hd_r (dictionary w') = 4 \<and> ring_size (dictionary w') = 4"
    by (auto simp: RING_SIZE_256)
  from wnd_a_a_inv wnd_a_aaa_inv wnd_a_a_search wnd_a_aaa_search n1 n3 m1 m3
  show ?thesis by simp
qed

text \<open>
  Claim C7.  For a result \<open>(o, l)\<close> of the search with \<open>l \<ge> 1\<close>, on a window that
  satisfies the invariants and has a non-empty lookahead: \<open>o < dict.size \<le> 256\<close> and
  \<open>l \<le> look.size \<le> 256\<close>, so \<open>dict.size - o - 1\<close> and \<open>l - 1\<close> are in \<open>[0, 255]\<close>; and
  the bytes of a back-reference that \<open>match\<close> returns are these values.
\<close>

theorem C7_cast_safety:
  "wnd_inv w \<and> 1 \<le> ring_size (lookahead w) \<and> kmp_search w = Some p \<and> 1 \<le> l_p p \<longrightarrow>
     o_p p < ring_size (dictionary w) \<and> ring_size (dictionary w) \<le> 256 \<and>
     l_p p \<le> ring_size (lookahead w) \<and> ring_size (lookahead w) \<le> 256 \<and>
     0 \<le> int (ring_size (dictionary w)) - int (o_p p) - 1 \<and>
     int (ring_size (dictionary w)) - int (o_p p) - 1 \<le> 255 \<and>
     0 \<le> int (l_p p) - 1 \<and> int (l_p p) - 1 \<le> 255 \<and>
     (\<forall>mt w'. match w = Some (mt, w') \<and> l_m mt \<noteq> 0 \<longrightarrow>
        uint (o_m mt) = int (ring_size (dictionary w)) - int (o_p p) - 1 \<and>
        uint (l_m mt) = int (l_p p) - 1)"
  (is "?A \<longrightarrow> ?R")
proof
  assume a: ?A
  then have winv: "wnd_inv w" and ne: "1 \<le> ring_size (lookahead w)"
    and p: "kmp_search w = Some p" and l1: "1 \<le> l_p p" by simp_all
  from kmp_search_total [OF winv ne] p have post: "kmp_post w p" by simp
  from winv have d256: "ring_size (dictionary w) \<le> 256" and l256: "ring_size (lookahead w) \<le> 256"
    by (simp_all add: wnd_inv_def RING_SIZE_256)
  from post l1 have o: "o_p p < ring_size (dictionary w)"
    and lm: "l_p p \<le> ring_size (lookahead w)"
    by (simp_all add: kmp_post_def is_match_def)
  have cast: "uint (o_m mt) = int (ring_size (dictionary w)) - int (o_p p) - 1 \<and>
        uint (l_m mt) = int (l_p p) - 1"
    if m: "match w = Some (mt, w') \<and> l_m mt \<noteq> 0" for mt w'
  proof -
    from m match_unfold [OF p]
    have mt: "mt = \<lparr>o_m = of_nat (ring_size (dictionary w)) - of_nat (o_p p) - 1,
                    l_m = of_nat (l_p p) - 1\<rparr>"
      by (auto split: if_splits)
    have "unat (o_m mt) = ring_size (dictionary w) - o_p p - 1"
      using byte_cast_off [OF o d256] by (simp add: mt)
    moreover have "unat (l_m mt) = l_p p - 1"
      using byte_cast_len [of "l_p p"] l1 lm l256 by (simp add: mt)
    ultimately have "uint (o_m mt) = int (ring_size (dictionary w) - o_p p - 1)"
      "uint (l_m mt) = int (l_p p - 1)" by (simp_all only: uint_nat)
    with o l1 show ?thesis by (simp add: of_nat_diff)
  qed
  have r1: "o_p p < ring_size (dictionary w) \<and> ring_size (dictionary w) \<le> 256 \<and>
     l_p p \<le> ring_size (lookahead w) \<and> ring_size (lookahead w) \<le> 256"
    using o d256 lm l256 by simp
  have r2: "0 \<le> int (ring_size (dictionary w)) - int (o_p p) - 1 \<and>
     int (ring_size (dictionary w)) - int (o_p p) - 1 \<le> 255 \<and>
     0 \<le> int (l_p p) - 1 \<and> int (l_p p) - 1 \<le> 255"
    using o d256 lm l256 l1 by simp
  from r1 r2 cast show ?R by blast
qed

theorem C7_cast_safety_witness:
  "wnd_inv wnd_a_aaa \<and> 1 \<le> ring_size (lookahead wnd_a_aaa) \<and>
   kmp_search wnd_a_aaa = Some \<lparr>o_p = 0, l_p = 3\<rparr> \<and>
   (\<exists>mt w'. match wnd_a_aaa = Some (mt, w') \<and> l_m mt \<noteq> 0 \<and>
      uint (o_m mt) = 0 \<and> uint (l_m mt) = 2)"
proof -
  have "\<exists>mt w'. match wnd_a_aaa = Some (mt, w') \<and> l_m mt \<noteq> 0"
    by (simp add: match_unfold [OF wnd_a_aaa_search] not_worth_def)
  then obtain mt w' where m: "match wnd_a_aaa = Some (mt, w')" "l_m mt \<noteq> 0" by blast
  from C7_cast_safety [of wnd_a_aaa "\<lparr>o_p = 0, l_p = 3\<rparr>"] wnd_a_aaa_inv wnd_a_aaa_search m
  have "uint (o_m mt) = 0 \<and> uint (l_m mt) = 2" by simp
  with m wnd_a_aaa_inv wnd_a_aaa_search show ?thesis by auto
qed


section \<open>The window over the input\<close>

text \<open>The window holds the bytes of the input \<open>S\<close> from the tail of the dictionary to the
  head of the lookahead, at their indices, and the source still has the bytes behind
  the head of the lookahead.\<close>

definition wnd_holds :: "byte list \<Rightarrow> wnd \<Rightarrow> source \<Rightarrow> bool" where
  "wnd_holds S w i \<longleftrightarrow>
     wnd_inv w \<and> hd_r (lookahead w) \<le> length S \<and>
     (\<forall>k. tl_r (dictionary w) \<le> k \<and> k < hd_r (lookahead w) \<longrightarrow> bf w (ring_mask k) = S ! k) \<and>
     pending i = drop (hd_r (lookahead w)) S \<and> rerrno i = None"

lemma mod512_distinct:
  assumes "k < h" and "h - k < 512"
  shows "k mod 512 \<noteq> h mod (512::nat)"
proof
  assume e: "k mod 512 = h mod 512"
  from assms(1) have "(h - k) mod 512 = 0"
    using e by (metis mod_eq_dvd_iff_nat dvd_imp_mod_0 less_imp_le)
  with assms show False by simp
qed

lemma wnd_read_step_holds:
  assumes h: "wnd_holds S w i"
  shows "case wnd_read_step w i of
           Inl (st, w', i') \<Rightarrow>
             wnd_holds S w' i' \<and> dictionary w' = dictionary w \<and>
             tl_r (lookahead w') = tl_r (lookahead w) \<and>
             (st = OK \<and> ring_size (lookahead w') = RING_SIZE \<or>
              st = EOF \<and> hd_r (lookahead w') = length S)
         | Inr (w', i') \<Rightarrow>
             wnd_holds S w' i' \<and> dictionary w' = dictionary w \<and>
             tl_r (lookahead w') = tl_r (lookahead w)"
proof -
  define lhd where "lhd = hd_r (lookahead w)"
  define ltl where "ltl = tl_r (lookahead w)"
  define dtl where "dtl = tl_r (dictionary w)"
  define r where "r = ring_run (lookahead w)"
  define c where "c = ring_capacity (lookahead w)"
  define u where "u = (if c > r then r else c)"
  define xs where "xs = take u (pending i)"
  define n where "n = length xs"
  define w' where "w' = w\<lparr>bf := store (bf w) (ring_mask lhd) xs,
    lookahead := (lookahead w)\<lparr>hd_r := lhd + n\<rparr>\<rparr>"
  define i' where "i' = i\<lparr>pending := drop u (pending i)\<rparr>"
  from h have winv: "wnd_inv w" and hl: "lhd \<le> length S"
    and cont: "\<forall>k. dtl \<le> k \<and> k < lhd \<longrightarrow> bf w (ring_mask k) = S ! k"
    and pend: "pending i = drop lhd S" and eof: "rerrno i = None"
    unfolding wnd_holds_def lhd_def dtl_def by simp_all
  from winv have ord: "dtl \<le> ltl" "ltl \<le> lhd" and dsz: "ltl - dtl \<le> 256"
    and lsz: "lhd - ltl \<le> 256"
    unfolding wnd_inv_def ring_size_def RING_SIZE_256 dtl_def ltl_def lhd_def by auto
  have c: "c = 256 - (lhd - ltl)"
    by (simp add: c_def ring_capacity_def ring_size_def RING_SIZE_256 lhd_def ltl_def)
  have r: "r = 512 - lhd mod 512" by (simp add: r_def ring_run_eq lhd_def)
  have ur: "u \<le> r" and uc: "u \<le> c" by (simp_all add: u_def)
  have n: "n = min u (length S - lhd)" by (simp add: n_def xs_def pend)
  then have nu: "n \<le> u" by simp
  have xs: "xs = take n (drop lhd S)"
    by (cases "u \<le> length S - lhd") (simp_all add: xs_def pend n min_def)
  have step: "wnd_read_step w i =
     (if n \<noteq> u then Inl (EOF, w', i') else if c = u then Inl (OK, w', i') else Inr (w', i'))"
    unfolding wnd_read_step_def Let_def fread_def prod.case
      r_def [symmetric] c_def [symmetric] u_def [symmetric] xs_def [symmetric]
      n_def [symmetric] lhd_def [symmetric] w'_def [symmetric] i'_def [symmetric]
    using eof by (simp add: feof_def i'_def)
  have inv': "wnd_inv w'"
    using winv nu uc c lsz ord
    unfolding wnd_inv_def w'_def ring_size_def RING_SIZE_256 lhd_def ltl_def dtl_def
    by auto
  have hd': "hd_r (lookahead w') = lhd + n" by (simp add: w'_def)
  have hl': "lhd + n \<le> length S" using hl by (simp add: n)
  have cont': "bf w' (ring_mask k) = S ! k" if k: "dtl \<le> k \<and> k < lhd + n" for k
  proof (cases "k < lhd")
    case True
    with k cont have old: "bf w (ring_mask k) = S ! k" by simp
    have out: "\<not> (lhd mod 512 \<le> k mod 512 \<and> k mod 512 < lhd mod 512 + n)"
    proof
      assume a: "lhd mod 512 \<le> k mod 512 \<and> k mod 512 < lhd mod 512 + n"
      define x where "x = k mod 512 - lhd mod 512"
      from a have x: "x < n" "k mod 512 = lhd mod 512 + x" unfolding x_def by arith+
      have "lhd mod 512 < 512" by simp
      with x(1) nu ur r have "lhd mod 512 + x < 512" by arith
      then have "(lhd + x) mod 512 = lhd mod 512 + x"
        by (metis mod_add_left_eq mod_less)
      with x have e: "k mod 512 = (lhd + x) mod 512" by simp
      from True have "k < lhd + x" by arith
      moreover from k True x(1) ord dsz lsz nu uc c have "lhd + x - k < 512" by arith
      ultimately have "k mod 512 \<noteq> (lhd + x) mod 512" by (rule mod512_distinct)
      with e show False by simp
    qed
    then show ?thesis using old
      by (auto simp add: w'_def store_def ring_mask_mod n_def [symmetric])
  next
    case False
    define x where "x = k - lhd"
    from False k have x: "x < n" "k = lhd + x" unfolding x_def by arith+
    have "lhd mod 512 < 512" by simp
    with x(1) nu ur r have "lhd mod 512 + x < 512" by arith
    then have m: "(lhd + x) mod 512 = lhd mod 512 + x"
      by (metis mod_add_left_eq mod_less)
    from x(1) hl' have "xs ! x = S ! (lhd + x)" by (simp add: xs)
    with x m show ?thesis
      by (auto simp add: w'_def store_def ring_mask_mod n_def [symmetric])
  qed
  have pend': "pending i' = drop (lhd + n) S"
  proof (cases "n = u")
    case True
    then show ?thesis by (simp add: i'_def pend add.commute)
  next
    case False
    with n nu have "n = length S - lhd" "length S - lhd < u" by arith+
    with hl show ?thesis by (simp add: i'_def pend)
  qed
  have holds': "wnd_holds S w' i'"
    unfolding wnd_holds_def
    using inv' hl' cont' pend' eof by (simp add: hd' w'_def dtl_def i'_def)
  have fr: "dictionary w' = dictionary w" "tl_r (lookahead w') = tl_r (lookahead w)"
    by (simp_all add: w'_def)
  show ?thesis
  proof (cases "n = u")
    case False
    with n nu have "lhd + n = length S" using hl by arith
    with False holds' fr step show ?thesis by (simp add: hd')
  next
    case True
    show ?thesis
    proof (cases "c = u")
      case cu: True
      with True c ord lsz have "ring_size (lookahead w') = RING_SIZE"
        by (simp add: ring_size_def RING_SIZE_256 w'_def ltl_def)
      with True cu holds' fr step show ?thesis by simp
    next
      case False
      with True holds' fr step show ?thesis by simp
    qed
  qed
qed

lemma wnd_read_holds:
  assumes "wnd_holds S w i"
  shows "case wnd_read w i of (st, w', i') \<Rightarrow>
           wnd_holds S w' i' \<and> dictionary w' = dictionary w \<and>
           tl_r (lookahead w') = tl_r (lookahead w) \<and>
           (st = OK \<and> ring_size (lookahead w') = RING_SIZE \<or>
            st = EOF \<and> hd_r (lookahead w') = length S)"
  using assms
proof (induction w i rule: wnd_read.induct)
  case (1 w i)
  note st = wnd_read_step_holds [OF "1.prems"]
  show ?case
  proof (cases "wnd_read_step w i")
    case (Inl res)
    with st show ?thesis
      by (simp del: wnd_read.simps add: wnd_read.simps [of w i])
  next
    case (Inr x)
    obtain w' i' where x: "x = (w', i')" by (cases x) auto
    with st Inr have h': "wnd_holds S w' i'" and fr: "dictionary w' = dictionary w"
      "tl_r (lookahead w') = tl_r (lookahead w)" by simp_all
    from "1.IH" [OF Inr x [symmetric] h'] Inr x fr show ?thesis
      by (simp del: wnd_read.simps add: wnd_read.simps [of w i] split: prod.splits)
  qed
qed


section \<open>Tokens\<close>

text \<open>What a token stands for: a literal appends its byte, a back-reference with the
  stored offset \<open>o\<close> and the stored length \<open>l\<close> copies \<open>l + 1\<close> bytes from \<open>o + 1\<close>
  positions behind the end.\<close>

definition tok_decode :: "byte list \<Rightarrow> match \<Rightarrow> byte list" where
  "tok_decode hist mt =
     (if l_m mt = 0 then hist @ [v_m mt]
      else copy_back hist (Suc (unat (o_m mt))) (Suc (unat (l_m mt))))"

definition toks_decode :: "byte list \<Rightarrow> match list \<Rightarrow> byte list" where
  "toks_decode hist toks = foldl tok_decode hist toks"

text \<open>The control byte of a group: bit \<open>k\<close> is set when token \<open>k\<close> is a back-reference.\<close>

fun ctl_byte :: "match list \<Rightarrow> byte" where
  "ctl_byte [] = 0"
| "ctl_byte (x # xs) = (if l_m x \<noteq> 0 then 1 else 0) OR push_bit 1 (ctl_byte xs)"

text \<open>The stream of a token list, of which \<open>t\<close> tokens are already framed: a control byte
  before every eighth token, for the tokens up to the next one.\<close>

fun frame_at :: "nat \<Rightarrow> match list \<Rightarrow> byte list" where
  "frame_at t [] = []"
| "frame_at t (x # xs) =
     (if t mod 8 = 0 then [ctl_byte (take 8 (x # xs))] else []) @
     token_bytes x @ frame_at (Suc t) xs"

lemma copy_back_take:
  assumes "1 \<le> D" and "D \<le> a" and "a + N \<le> length S"
    and "\<forall>x<N. S ! (a + x) = S ! (a + x - D)"
  shows "copy_back (pre @ take a S) D N = pre @ take (a + N) S"
  using assms(2-)
proof (induction N arbitrary: a)
  case 0
  show ?case by (simp add: copy_back.simps)
next
  case (Suc N)
  define h where "h = pre @ take a S"
  from Suc.prems have aS: "a < length S" by simp
  then have lh: "length h = length pre + a" by (simp add: h_def)
  from assms(1) Suc.prems(1) have "length h - D = length pre + (a - D)" "a - D < a"
    unfolding lh by arith+
  then have "h ! (length h - D) = S ! (a - D)"
    by (simp add: h_def nth_append)
  also from Suc.prems(3) have "\<dots> = S ! a" by (metis add.right_neutral zero_less_Suc)
  finally have "h @ [h ! (length h - D)] = pre @ take (Suc a) S"
    using aS by (simp add: h_def take_Suc_conv_app_nth)
  moreover have "copy_back (pre @ take (Suc a) S) D N = pre @ take (Suc a + N) S"
  proof (rule Suc.IH)
    from Suc.prems(1) show "D \<le> Suc a" by simp
    from Suc.prems(2) show "Suc a + N \<le> length S" by simp
    show "\<forall>x<N. S ! (Suc a + x) = S ! (Suc a + x - D)"
    proof (intro allI impI)
      fix x assume "x < N"
      then have "S ! (a + Suc x) = S ! (a + Suc x - D)" using Suc.prems(3) by blast
      then show "S ! (Suc a + x) = S ! (Suc a + x - D)" by simp
    qed
  qed
  ultimately show ?case by (simp add: copy_back.simps h_def)
qed

text \<open>The token that \<open>match\<close> returns stands for the bytes of the input that it
  consumes.\<close>

lemma match_decodes:
  assumes h: "wnd_holds S w i" and ne: "1 \<le> ring_size (lookahead w)"
  shows "\<exists>mt n. match w = Some (mt, wnd_shift w n) \<and> 1 \<le> n \<and> n \<le> ring_size (lookahead w) \<and>
     (\<forall>pre. tok_decode (pre @ take (tl_r (lookahead w)) S) mt =
        pre @ take (tl_r (lookahead w) + n) S)"
proof -
  define lhd where "lhd = hd_r (lookahead w)"
  define ltl where "ltl = tl_r (lookahead w)"
  define dtl where "dtl = tl_r (dictionary w)"
  define dsz where "dsz = ring_size (dictionary w)"
  define lsz where "lsz = ring_size (lookahead w)"
  from h have winv: "wnd_inv w" and hl: "lhd \<le> length S"
    and cont: "\<And>k. dtl \<le> k \<Longrightarrow> k < lhd \<Longrightarrow> bf w (ring_mask k) = S ! k"
    unfolding wnd_holds_def lhd_def dtl_def by simp_all
  from winv have ltl: "ltl = dtl + dsz" and lhd: "lhd = ltl + lsz"
    unfolding wnd_inv_def ring_size_def dtl_def ltl_def lhd_def dsz_def lsz_def by auto
  from ne have lsz1: "1 \<le> lsz" by (simp add: lsz_def)
  have pa: "pat_at w x = S ! (ltl + x)" if "x < lsz" for x
    unfolding pat_at_def ltl_def [symmetric]
    using that ltl lhd by (intro cont) simp_all
  have tx: "text_at w x = S ! (dtl + x)" if "x < dsz + lsz" for x
    unfolding text_at_def dtl_def [symmetric]
    using that ltl lhd by (intro cont) simp_all
  from match_total [OF winv ne] obtain p where post: "kmp_post w p"
    and m: "if not_worth w p then
        match w = Some (\<lparr>o_m = pat_at w 0, l_m = 0\<rparr>, wnd_shift w 1)
      else
        (\<exists>mt. match w = Some (mt, wnd_shift w (l_p p)) \<and> l_m mt \<noteq> 0 \<and>
           unat (o_m mt) = ring_size (dictionary w) - o_p p - 1 \<and>
           unat (l_m mt) = l_p p - 1 \<and>
           o_p p < ring_size (dictionary w) \<and> 2 \<le> l_p p \<and>
           l_p p \<le> ring_size (lookahead w))"
    by blast
  show ?thesis
  proof (cases "not_worth w p")
    case True
    with m have mw: "match w = Some (\<lparr>o_m = pat_at w 0, l_m = 0\<rparr>, wnd_shift w 1)" by simp
    from lsz1 have p0: "pat_at w 0 = S ! ltl" using pa [of 0] by simp
    from lsz1 lhd hl have "ltl < length S" by simp
    then have "tok_decode (pre @ take ltl S) \<lparr>o_m = pat_at w 0, l_m = 0\<rparr> =
        pre @ take (ltl + 1) S" for pre
      by (simp add: tok_decode_def p0 take_Suc_conv_app_nth)
    with mw lsz1 show ?thesis
      unfolding ltl_def [symmetric] lsz_def [symmetric]
      by (intro exI [of _ "\<lparr>o_m = pat_at w 0, l_m = 0\<rparr>"] exI [of _ 1]) simp
  next
    case False
    with m obtain mt where mw: "match w = Some (mt, wnd_shift w (l_p p))"
      and nz: "l_m mt \<noteq> 0" and uo: "unat (o_m mt) = dsz - o_p p - 1"
      and ul: "unat (l_m mt) = l_p p - 1" and o: "o_p p < dsz"
      and l2: "2 \<le> l_p p" and ll: "l_p p \<le> lsz"
      unfolding dsz_def lsz_def by auto
    define D where "D = dsz - o_p p"
    from uo o have D: "Suc (unat (o_m mt)) = D" by (simp add: D_def)
    from ul l2 have N: "Suc (unat (l_m mt)) = l_p p" by simp
    from post have im: "\<forall>x<l_p p. pat_at w x = text_at w (o_p p + x)"
      by (simp add: kmp_post_def is_match_def)
    have eq: "\<forall>x<l_p p. S ! (ltl + x) = S ! (ltl + x - D)"
    proof (intro allI impI)
      fix x assume x: "x < l_p p"
      with ll have "x < lsz" by simp
      from pa [OF this] have "S ! (ltl + x) = pat_at w x" by simp
      also from im x have "\<dots> = text_at w (o_p p + x)" by simp
      also have "\<dots> = S ! (dtl + (o_p p + x))"
        using x ll o by (intro tx) arith
      also have "dtl + (o_p p + x) = ltl + x - D"
        using o unfolding ltl D_def by arith
      finally show "S ! (ltl + x) = S ! (ltl + x - D)" .
    qed
    have cb: "copy_back (pre @ take ltl S) D (l_p p) = pre @ take (ltl + l_p p) S" for pre
    proof (rule copy_back_take)
      from o show "1 \<le> D" unfolding D_def by arith
      show "D \<le> ltl" unfolding D_def ltl by arith
      from ll lhd hl show "ltl + l_p p \<le> length S" by arith
      from eq show "\<forall>x<l_p p. S ! (ltl + x) = S ! (ltl + x - D)" .
    qed
    have "tok_decode (pre @ take ltl S) mt = pre @ take (ltl + l_p p) S" for pre
      using nz cb [of pre] unfolding tok_decode_def D N by simp
    with mw l2 ll show ?thesis
      unfolding ltl_def [symmetric] lsz_def [symmetric]
      by (intro exI [of _ mt] exI [of _ "l_p p"]) simp
  qed
qed

section \<open>Framing\<close>

lemma bit_ctl_step:
  "bit ((if b then 1 else 0) OR push_bit 1 (a::byte)) k \<longleftrightarrow>
     k = 0 \<and> b \<or> 0 < k \<and> k < 8 \<and> bit a (k - 1)"
  unfolding bit_or_iff bit_push_bit_iff
  by (cases b; cases k) (auto simp add: bit_1_iff)

lemma ctl_byte_bit:
  "bit (ctl_byte g) k \<longleftrightarrow> k < 8 \<and> k < length g \<and> l_m (g ! k) \<noteq> 0"
proof (induction g arbitrary: k)
  case Nil
  show ?case by simp
next
  case (Cons x xs)
  have "bit (ctl_byte (x # xs)) k \<longleftrightarrow>
      k = 0 \<and> l_m x \<noteq> 0 \<or> 0 < k \<and> k < 8 \<and> bit (ctl_byte xs) (k - 1)"
    unfolding ctl_byte.simps by (rule bit_ctl_step)
  then show ?case
    unfolding Cons.IH by (cases k) auto
qed

lemma ctl_byte_snoc:
  assumes "length g < 8"
  shows "ctl_byte (g @ [x]) = ctl_byte g OR (if l_m x \<noteq> 0 then push_bit (length g) 1 else 0)"
  using assms
  by (intro bit_eqI)
     (auto simp add: ctl_byte_bit bit_or_iff bit_exp_iff nth_append less_Suc_eq)

lemma frame_at_append:
  assumes "(t + length xs) mod 8 = 0"
  shows "frame_at t (xs @ ys) = frame_at t xs @ frame_at (t + length xs) ys"
  using assms
proof (induction xs arbitrary: t)
  case Nil
  show ?case by simp
next
  case (Cons x xs)
  from Cons.prems have s: "(Suc t + length xs) mod 8 = 0" by simp
  have c: "take 8 (x # xs @ ys) = take 8 (x # xs)" if "t mod 8 = 0"
  proof -
    from that Cons.prems have "length (x # xs) mod 8 = 0"
      by (metis add_cancel_left_left mod_add_left_eq)
    then have "8 dvd length (x # xs)" by (simp only: mod_eq_0_iff_dvd)
    then have "8 \<le> length (x # xs)" by (rule dvd_imp_le) simp
    define g where "g = x # xs"
    with \<open>8 \<le> length (x # xs)\<close> have "8 \<le> length g" by simp
    then have "take 8 (g @ ys) = take 8 g" by simp
    then show ?thesis unfolding g_def by (simp only: append_Cons)
  qed
  show ?case
    using Cons.IH [OF s] c by (simp del: take_Cons_numeral ctl_byte.simps)
qed

lemma frame_at_tokens:
  assumes "t mod 8 + length g \<le> 8" and "t mod 8 \<noteq> 0"
  shows "frame_at t g = concat (map token_bytes g)"
  using assms
proof (induction g arbitrary: t)
  case Nil
  show ?case by simp
next
  case (Cons x xs)
  show ?case
  proof (cases xs)
    case Nil
    with Cons.prems show ?thesis by simp
  next
    case (Cons y ys)
    with Cons.prems have "Suc t mod 8 = Suc (t mod 8)"
      by (simp add: mod_Suc)
    with Cons.prems have "frame_at (Suc t) xs = concat (map token_bytes xs)"
      by (intro Cons.IH) simp_all
    with Cons.prems show ?thesis by simp
  qed
qed

lemma frame_at_group:
  assumes "t mod 8 = 0" and "g \<noteq> []" and "length g \<le> 8"
  shows "frame_at t g = ctl_byte g # concat (map token_bytes g)"
proof -
  from assms(2) obtain x xs where g: "g = x # xs" by (cases g) auto
  have "frame_at (Suc t) xs = concat (map token_bytes xs)"
  proof (cases xs)
    case Nil
    then show ?thesis by simp
  next
    case (Cons y ys)
    from assms(1) have "Suc t mod 8 = 1" by (simp add: mod_Suc)
    with assms(3) g show ?thesis by (intro frame_at_tokens) simp_all
  qed
  with assms g show ?thesis by simp
qed

section \<open>The decoder on a framed stream\<close>

lemma sdecode_at_control:
  "t mod 8 = 0 \<Longrightarrow> sdecode t ctl hist (c # bs) = sdecode_token t c hist bs"
  by simp

lemma sdecode_in_group:
  "t mod 8 \<noteq> 0 \<Longrightarrow> bs \<noteq> [] \<Longrightarrow> sdecode t ctl hist bs = sdecode_token t ctl hist bs"
  by (cases bs) simp_all

lemma sdecode_token_bytes:
  assumes "bit ctl (t mod 8) \<longleftrightarrow> l_m x \<noteq> 0"
  shows "sdecode_token t ctl hist (token_bytes x @ bs) = sdecode (Suc t) ctl (tok_decode hist x) bs"
  using assms by (simp add: token_bytes_def tok_decode_def)

lemma sdecode_frame:
  assumes "t mod 8 \<noteq> 0 \<longrightarrow>
    (\<forall>k. k < length toks \<and> t mod 8 + k < 8 \<longrightarrow> bit ctl (t mod 8 + k) = (l_m (toks ! k) \<noteq> 0))"
  shows "sdecode t ctl hist (frame_at t toks) = (Complete, toks_decode hist toks)"
  using assms
proof (induction toks arbitrary: t ctl hist)
  case Nil
  show ?case by (simp add: toks_decode_def)
next
  case (Cons x xs)
  define ctl' where "ctl' = (if t mod 8 = 0 then ctl_byte (take 8 (x # xs)) else ctl)"
  have bits: "bit ctl' (t mod 8 + k) = (l_m ((x # xs) ! k) \<noteq> 0)"
    if "k < length (x # xs)" "t mod 8 + k < 8" for k
  proof (cases "t mod 8 = 0")
    case True
    define g where "g = x # xs"
    from that True have "k < length g" "k < 8" by (simp_all add: g_def)
    then have "bit (ctl_byte (take 8 g)) k = (l_m (g ! k) \<noteq> 0)"
      by (simp add: ctl_byte_bit)
    with True show ?thesis
      unfolding ctl'_def g_def by (simp only: if_True add_0 simp_thms)
  next
    case False
    with Cons.prems that show ?thesis unfolding ctl'_def by simp
  qed
  have "bit ctl' (t mod 8) = (l_m x \<noteq> 0)" using bits [of 0] by simp
  note tok = sdecode_token_bytes [OF this]
  have start: "sdecode t ctl hist (frame_at t (x # xs)) =
      sdecode_token t ctl' hist (token_bytes x @ frame_at (Suc t) xs)"
  proof (cases "t mod 8 = 0")
    case True
    then show ?thesis unfolding ctl'_def by (simp del: take_Suc_Cons)
  next
    case False
    have "token_bytes x @ frame_at (Suc t) xs \<noteq> []" by (simp add: token_bytes_def)
    from sdecode_in_group [OF False this] False show ?thesis
      unfolding ctl'_def by simp
  qed
  have "sdecode (Suc t) ctl' (tok_decode hist x) (frame_at (Suc t) xs) =
      (Complete, toks_decode (tok_decode hist x) xs)"
  proof (rule Cons.IH, intro impI allI)
    fix k
    assume nz: "Suc t mod 8 \<noteq> 0" and k: "k < length xs \<and> Suc t mod 8 + k < 8"
    from nz have e: "Suc t mod 8 = Suc (t mod 8)" by (simp add: mod_Suc split: if_splits)
    with k have "Suc k < length (x # xs)" "t mod 8 + Suc k < 8" by simp_all
    from bits [OF this] e show "bit ctl' (Suc t mod 8 + k) = (l_m (xs ! k) \<noteq> 0)" by simp
  qed
  with start tok show ?case by (simp add: toks_decode_def)
qed


section \<open>The encoder on a sink that never fails\<close>

lemma encode_token_ok:
  "room s = None \<Longrightarrow> encode_token mt s = Inr (s\<lparr>written := written s @ token_bytes mt\<rparr>)"
  by (simp add: encode_token_def token_bytes_def putc_unlocked_def)

lemma encode_loop_ok:
  assumes "room s = None" and "unat j < unat n"
  shows "encode_loop m n j s =
     Inr (s\<lparr>written := written s @ concat (map (\<lambda>k. token_bytes (m k)) [unat j..<unat n])\<rparr>)"
  using assms
proof (induction m n j s rule: encode_loop.induct)
  case (1 m n j s)
  define s1 where "s1 = s\<lparr>written := written s @ token_bytes (m (unat j))\<rparr>"
  from "1.prems"(1) have tok: "encode_token (m (unat j)) s = Inr s1"
    unfolding s1_def by (rule encode_token_ok)
  from "1.prems"(1) have r1: "room s1 = None" by (simp add: s1_def)
  from "1.prems"(2) have nz: "unat j + 1 < 2 ^ 32"
    using unsigned_less [of n, where 'a = nat] by simp
  then have suc: "unat (j + 1) = unat j + 1"
    by (simp add: unat_word_ariths)
  have up: "[unat j..<unat n] = unat j # [unat j + 1..<unat n]"
    using "1.prems"(2) by (simp add: upt_conv_Cons)
  show ?case
  proof (cases "j + 1 = n")
    case True
    with suc have "unat n = unat j + 1" by simp
    with tok True show ?thesis
      by (simp del: encode_loop.simps add: encode_loop.simps [of m n j s] s1_def)
  next
    case False
    with suc "1.prems"(2) have lt: "unat (j + 1) < unat n"
      by (metis Suc_eq_plus1 Suc_lessI word_unat_eq_iff)
    from "1.IH" [OF tok False r1 lt] tok False up suc show ?thesis
      by (simp del: encode_loop.simps add: encode_loop.simps [of m n j s] s1_def)
  qed
qed

lemma encode_ok:
  assumes "room s = None" and "n \<noteq> 0"
  shows "encode m n c s =
     Inr (s\<lparr>written := written s @ ucast c # concat (map token_bytes (map m [0..<unat n]))\<rparr>)"
proof -
  define s1 where "s1 = s\<lparr>written := written s @ [ucast c]\<rparr>"
  from assms(1) have p: "putc_unlocked (ucast c) s = Some s1"
    by (simp add: putc_unlocked_def s1_def)
  from assms(1) have r1: "room s1 = None" by (simp add: s1_def)
  from assms(2) have "unat (0::u32) < unat n" by (simp add: unat_gt_0)
  from encode_loop_ok [OF r1 this, of m] p show ?thesis
    by (simp add: encode_def s1_def comp_def)
qed

text \<open>\<open>compress_helper\<close> on a group buffer that satisfies its invariant and a sink that
  never fails, when \<open>match\<close> returns.\<close>

lemma compress_helper_unfold:
  assumes g: "grp_inv ctx" and r: "room s = None" and m: "match (w_ctx ctx) = Some (mt, w')"
  shows "compress_helper ctx s =
     Some (Inr
       (ctx\<lparr>msk_ctx := rol (msk_ctx ctx),
            n_ctx := (if n_ctx ctx = 8 then 0 else n_ctx ctx),
            c_ctx := (if n_ctx ctx = 8 \<or> n_ctx ctx = 0 then 0 else c_ctx ctx) OR
                     (if l_m mt \<noteq> 0 then rol (msk_ctx ctx) else 0),
            w_ctx := w',
            m_ctx := (m_ctx ctx)(unat (if n_ctx ctx = 8 then 0 else n_ctx ctx) := mt)\<rparr>,
        if n_ctx ctx = 8 then
          s\<lparr>written := written s @ ucast (c_ctx ctx) #
               concat (map token_bytes (map (m_ctx ctx) [0..<8]))\<rparr>
        else s))"
proof -
  define ro where "ro = rol (msk_ctx ctx)"
  from grp_inv_bit0 [OF g] have b0: "(ro AND 1 = 0) = (n_ctx ctx \<noteq> 0 \<and> n_ctx ctx \<noteq> 8)"
    unfolding ro_def by blast
  have e: "encode (m_ctx ctx) 8 c s =
      Inr (s\<lparr>written := written s @ ucast c #
        concat (map token_bytes (map (m_ctx ctx) [0..<8]))\<rparr>)" for c
    using encode_ok [OF r, of 8 "m_ctx ctx" c] by simp
  show ?thesis
  proof (cases "n_ctx ctx = 8")
    case True
    then show ?thesis
      unfolding compress_helper_def ro_def [symmetric]
      by (simp add: Let_def b0 e m)
  next
    case False
    then show ?thesis
      unfolding compress_helper_def ro_def [symmetric]
      by (cases "n_ctx ctx = 0") (simp_all add: Let_def b0 m)
  qed
qed

lemma wnd_holds_shift:
  assumes "wnd_holds S w i" and "n \<le> ring_size (lookahead w)"
  shows "wnd_holds S (wnd_shift w n) i"
proof -
  from assms have "wnd_inv (wnd_shift w n)"
    by (intro wnd_inv_shift) (simp_all add: wnd_holds_def)
  moreover have "hd_r (lookahead (wnd_shift w n)) = hd_r (lookahead w)"
    "bf (wnd_shift w n) = bf w"
    "tl_r (dictionary w) \<le> tl_r (dictionary (wnd_shift w n))"
    by (simp_all add: wnd_shift_def Let_def)
  ultimately show ?thesis
    using assms(1) unfolding wnd_holds_def by auto
qed


section \<open>The encoder's state\<close>

text \<open>
  The state of \<open>compress\<close> between two calls of \<open>compress_helper\<close>, on the input \<open>S\<close>
  and from the sink \<open>s0\<close>, with the tokens \<open>toks\<close> found so far: the last \<open>ctx.n\<close> of them
  are in the group buffer and the low byte of \<open>ctx.c\<close> is their control byte; the tokens
  before them are framed in the sink; all of them stand for the bytes of the input before
  the tail of the lookahead.
\<close>

definition enc_inv :: "byte list \<Rightarrow> sink \<Rightarrow> match list \<Rightarrow> ctx \<Rightarrow> source \<Rightarrow> sink \<Rightarrow> bool" where
  "enc_inv S s0 toks ctx i s \<longleftrightarrow>
     grp_inv ctx \<and> wnd_holds S (w_ctx ctx) i \<and> room s0 = None \<and>
     unat (n_ctx ctx) \<le> length toks \<and>
     (length toks - unat (n_ctx ctx)) mod 8 = 0 \<and>
     s = s0\<lparr>written := written s0 @
           frame_at 0 (take (length toks - unat (n_ctx ctx)) toks)\<rparr> \<and>
     map (m_ctx ctx) [0..<unat (n_ctx ctx)] = drop (length toks - unat (n_ctx ctx)) toks \<and>
     (n_ctx ctx \<noteq> 0 \<longrightarrow>
        ucast (c_ctx ctx) = ctl_byte (drop (length toks - unat (n_ctx ctx)) toks)) \<and>
     (\<forall>hist. toks_decode hist toks = hist @ take (tl_r (lookahead (w_ctx ctx))) S)"

lemma frame_flush:
  assumes "q < length toks" and "q mod 8 = 0" and "length toks - q \<le> 8"
  shows "frame_at 0 toks =
     frame_at 0 (take q toks) @ ctl_byte (drop q toks) # concat (map token_bytes (drop q toks))"
proof -
  from assms(1) have l: "length (take q toks) = q" by simp
  from assms(2) have "(0 + length (take q toks)) mod 8 = 0" by (simp only: l add_0)
  from frame_at_append [OF this, of "drop q toks"]
  have "frame_at 0 toks = frame_at 0 (take q toks) @ frame_at q (drop q toks)"
    by (simp only: append_take_drop_id l add_0)
  moreover have "frame_at q (drop q toks) =
      ctl_byte (drop q toks) # concat (map token_bytes (drop q toks))"
    using assms by (intro frame_at_group) simp_all
  ultimately show ?thesis by simp
qed

lemma low_byte_mask:
  assumes "k < 8"
  shows "(ucast (push_bit k (0x01010101 :: u32)) :: byte) = push_bit k 1"
  using lt8_cases [OF assms] by auto

lemma map_upd_upt: "map (f(n := v)) [0..<n] = map f [0..<n]"
  by simp

lemma compress_helper_enc:
  assumes inv: "enc_inv S s0 toks ctx i s"
    and ne: "1 \<le> ring_size (lookahead (w_ctx ctx))"
  shows "\<exists>ctx' s' mt. compress_helper ctx s = Some (Inr (ctx', s')) \<and>
     enc_inv S s0 (toks @ [mt]) (ctx'\<lparr>n_ctx := n_ctx ctx' + 1\<rparr>) i s' \<and>
     tl_r (lookahead (w_ctx ctx)) < tl_r (lookahead (w_ctx ctx')) \<and>
     hd_r (lookahead (w_ctx ctx')) = hd_r (lookahead (w_ctx ctx))"
proof -
  define w where "w = w_ctx ctx"
  define n where "n = n_ctx ctx"
  define N where "N = unat n"
  define q where "q = length toks - N"
  define ltl where "ltl = tl_r (lookahead w)"
  from inv have g: "grp_inv ctx" and wh: "wnd_holds S w i" and r0: "room s0 = None"
    and Nl: "N \<le> length toks" and q8: "q mod 8 = 0"
    and s: "s = s0\<lparr>written := written s0 @ frame_at 0 (take q toks)\<rparr>"
    and mm: "map (m_ctx ctx) [0..<N] = drop q toks"
    and cc: "n \<noteq> 0 \<longrightarrow> ucast (c_ctx ctx) = ctl_byte (drop q toks)"
    and dec: "\<And>hist. toks_decode hist toks = hist @ take ltl S"
    unfolding enc_inv_def w_def n_def N_def q_def ltl_def by simp_all
  from s r0 have rs: "room s = None" by simp
  from g have "n \<le> 8" by (simp add: grp_inv_def n_def)
  then have N8: "N \<le> 8" by (simp add: N_def word_le_nat_alt)
  have n8: "n = 8 \<longleftrightarrow> N = 8" by (simp add: N_def word_unat_eq_iff)
  have n0: "n = 0 \<longleftrightarrow> N = 0" by (simp add: N_def unat_eq_0)
  from match_decodes [OF wh ne [folded w_def]] obtain mt k where
    mw: "match w = Some (mt, wnd_shift w k)" and k1: "1 \<le> k"
    and kl: "k \<le> ring_size (lookahead w)"
    and td: "\<And>pre. tok_decode (pre @ take ltl S) mt = pre @ take (ltl + k) S"
    unfolding ltl_def by blast
  define n1 where "n1 = (if n = 8 then 0 else n)"
  define N1 where "N1 = unat n1"
  define ro where "ro = rol (msk_ctx ctx)"
  define c1 where "c1 = (if n = 8 \<or> n = 0 then 0 else c_ctx ctx)"
  define ctx' where "ctx' = ctx\<lparr>msk_ctx := ro, n_ctx := n1,
      c_ctx := c1 OR (if l_m mt \<noteq> 0 then ro else 0), w_ctx := wnd_shift w k,
      m_ctx := (m_ctx ctx)(N1 := mt)\<rparr>"
  define s' where "s' = (if n = 8 then
      s\<lparr>written := written s @ ucast (c_ctx ctx) #
           concat (map token_bytes (map (m_ctx ctx) [0..<8]))\<rparr> else s)"
  have ch: "compress_helper ctx s = Some (Inr (ctx', s'))"
    using compress_helper_unfold [OF g rs mw [unfolded w_def]]
    unfolding ctx'_def s'_def n1_def N1_def ro_def c1_def n_def w_def by simp
  have N1: "N1 = (if N = 8 then 0 else N)" by (simp add: N1_def n1_def n8 N_def)
  with N8 have N1lt: "N1 < 8" by (simp split: if_splits)
  have ron: "ro = push_bit N1 0x01010101"
    using grp_inv_rol [OF g] unfolding ro_def N1_def n1_def n_def by (simp split: if_splits)
  define q1 where "q1 = length toks - N1"
  have q1: "q1 = (if N = 8 then length toks else q)" by (simp add: q1_def N1 q_def)
  have q1l: "q1 \<le> length toks" by (simp add: q1_def)
  have q18: "q1 mod 8 = 0"
  proof (cases "N = 8")
    case True
    with Nl q8 have "(length toks - 8) mod 8 = 0" "8 \<le> length toks" by (simp_all add: q_def)
    then have "length toks mod 8 = 0" by (metis le_mod_geq)
    with True show ?thesis by (simp add: q1)
  next
    case False
    with q8 show ?thesis by (simp add: q1)
  qed
  have ws: "s' = s0\<lparr>written := written s0 @ frame_at 0 (take q1 toks)\<rparr>"
  proof (cases "N = 8")
    case True
    with Nl have ql: "q < length toks" "length toks - q \<le> 8" by (simp_all add: q_def)
    from True n8 n0 cc have c: "ucast (c_ctx ctx) = ctl_byte (drop q toks)" by simp
    from True mm have m8: "map (m_ctx ctx) [0..<8] = drop q toks" by simp
    from frame_flush [OF ql(1) q8 ql(2)] True n8 show ?thesis
      unfolding s'_def s c m8 q1 by simp
  next
    case False
    with n8 show ?thesis unfolding s'_def s q1 by simp
  qed
  have u1: "unat (n1 + 1) = N1 + 1"
    using N1lt unfolding N1_def by (simp add: unat_word_ariths)
  have m1: "map (m_ctx ctx) [0..<N1] = drop q1 toks"
    using mm by (simp add: N1 q1)
  have c1v: "ucast c1 = ctl_byte (drop q1 toks)"
  proof (cases "n = 8 \<or> n = 0")
    case True
    then have "q1 = length toks" unfolding q1 n8 n0 q_def by auto
    with True show ?thesis by (simp add: c1_def)
  next
    case False
    with cc n8 show ?thesis by (simp add: c1_def q1)
  qed
  have ld: "length (drop q1 toks) = N1" using Nl by (simp add: q1_def N1 split: if_splits)
  define ctx2 where "ctx2 = ctx'\<lparr>n_ctx := n_ctx ctx' + 1\<rparr>"
  have f: "n_ctx ctx2 = n1 + 1" "w_ctx ctx2 = wnd_shift w k"
    "m_ctx ctx2 = (m_ctx ctx)(N1 := mt)"
    "c_ctx ctx2 = c1 OR (if l_m mt \<noteq> 0 then ro else 0)"
    by (simp_all add: ctx2_def ctx'_def)
  have len: "length (toks @ [mt]) - unat (n_ctx ctx2) = q1"
    unfolding f u1 q1_def by simp
  have "enc_inv S s0 (toks @ [mt]) ctx2 i s'"
    unfolding enc_inv_def len
  proof (intro conjI allI impI)
    from grp_inv_helper [OF g ch] show "grp_inv ctx2" unfolding ctx2_def by blast
    from wnd_holds_shift [OF wh kl] show "wnd_holds S (w_ctx ctx2) i" by (simp add: f)
    from r0 show "room s0 = None" .
    from Nl show "unat (n_ctx ctx2) \<le> length (toks @ [mt])"
      unfolding f u1 by (simp add: N1 split: if_splits)
    from q18 show "q1 mod 8 = 0" .
    from ws q1l show "s' = s0\<lparr>written := written s0 @ frame_at 0 (take q1 (toks @ [mt]))\<rparr>"
      by simp
    from m1 q1l show "map (m_ctx ctx2) [0..<unat (n_ctx ctx2)] = drop q1 (toks @ [mt])"
      unfolding f u1 by simp
    have "ucast (c_ctx ctx2) = ucast c1 OR (if l_m mt \<noteq> 0 then push_bit N1 1 else (0::byte))"
      unfolding f ron using low_byte_mask [OF N1lt] by (simp add: unsigned_or_eq)
    also have "\<dots> = ctl_byte (drop q1 toks @ [mt])"
      using ctl_byte_snoc [of "drop q1 toks" mt] N1lt unfolding ld c1v by simp
    finally show "ucast (c_ctx ctx2) = ctl_byte (drop q1 (toks @ [mt]))"
      using q1l by simp
  next
    fix hist
    have "toks_decode hist (toks @ [mt]) = tok_decode (toks_decode hist toks) mt"
      by (simp add: toks_decode_def)
    also have "\<dots> = hist @ take (ltl + k) S" unfolding dec by (rule td)
    also have "ltl + k = tl_r (lookahead (w_ctx ctx2))"
      by (simp add: f wnd_shift_def Let_def ltl_def)
    finally show "toks_decode hist (toks @ [mt]) =
        hist @ take (tl_r (lookahead (w_ctx ctx2))) S" .
  qed
  moreover have "tl_r (lookahead (w_ctx ctx)) < tl_r (lookahead (w_ctx ctx'))"
    "hd_r (lookahead (w_ctx ctx')) = hd_r (lookahead (w_ctx ctx))"
    using k1 by (simp_all add: ctx'_def wnd_shift_def Let_def w_def)
  ultimately show ?thesis
    using ch unfolding ctx2_def by blast
qed


section \<open>The loops of compress\<close>

lemma enc_inv_window:
  assumes "enc_inv S s0 toks ctx i s" and "wnd_holds S w' i'"
    and "tl_r (lookahead w') = tl_r (lookahead (w_ctx ctx))"
  shows "enc_inv S s0 toks (ctx\<lparr>w_ctx := w'\<rparr>) i' s"
  using assms unfolding enc_inv_def by simp

lemma wnd_holds_bounds:
  assumes "wnd_holds S w i"
  shows "tl_r (lookahead w) \<le> hd_r (lookahead w)" "hd_r (lookahead w) \<le> length S"
  using assms unfolding wnd_holds_def wnd_inv_def by simp_all

text \<open>The first loop ends, at the end of the input.\<close>

lemma compress_read_loop_enc:
  assumes "enc_inv S s0 toks ctx i s"
  shows "\<exists>toks' ctx' i' s'. compress_read_loop ctx i s = Some (Inr (EOF, ctx', s')) \<and>
     enc_inv S s0 toks' ctx' i' s' \<and> hd_r (lookahead (w_ctx ctx')) = length S"
  using assms
proof (induction "length S - tl_r (lookahead (w_ctx ctx))" arbitrary: toks ctx i s
    rule: less_induct)
  case less
  note inv = less.prems
  from inv have wh: "wnd_holds S (w_ctx ctx) i" by (simp add: enc_inv_def)
  obtain st w' i' where rd: "wnd_read (w_ctx ctx) i = (st, w', i')"
    by (cases "wnd_read (w_ctx ctx) i") auto
  from wnd_read_holds [OF wh] rd have wh': "wnd_holds S w' i'"
    and tl': "tl_r (lookahead w') = tl_r (lookahead (w_ctx ctx))"
    and st: "st = OK \<and> ring_size (lookahead w') = RING_SIZE \<or>
             st = EOF \<and> hd_r (lookahead w') = length S"
    by simp_all
  define ctx1 where "ctx1 = ctx\<lparr>w_ctx := w'\<rparr>"
  from enc_inv_window [OF inv wh' tl'] have inv1: "enc_inv S s0 toks ctx1 i' s"
    by (simp add: ctx1_def)
  show ?case
  proof (cases "st = OK")
    case False
    with st have e: "st = EOF" and hd: "hd_r (lookahead w') = length S" by simp_all
    have "compress_read_loop ctx i s = Some (Inr (EOF, ctx1, s))"
      by (subst compress_read_loop.simps) (simp add: rd e ctx1_def del: wnd_read.simps)
    with inv1 hd show ?thesis by (auto simp: ctx1_def)
  next
    case True
    with st have "1 \<le> ring_size (lookahead (w_ctx ctx1))"
      by (simp add: ctx1_def RING_SIZE_256)
    from compress_helper_enc [OF inv1 this] obtain ctx2 s2 mt where
      ch: "compress_helper ctx1 s = Some (Inr (ctx2, s2))"
      and inv2: "enc_inv S s0 (toks @ [mt]) (ctx2\<lparr>n_ctx := n_ctx ctx2 + 1\<rparr>) i' s2"
      and prog: "tl_r (lookahead (w_ctx ctx1)) < tl_r (lookahead (w_ctx ctx2))"
      by blast
    define ctx3 where "ctx3 = ctx2\<lparr>n_ctx := n_ctx ctx2 + 1\<rparr>"
    from inv2 have "wnd_holds S (w_ctx ctx3) i'" by (simp add: enc_inv_def ctx3_def)
    from wnd_holds_bounds [OF this] have "tl_r (lookahead (w_ctx ctx2)) \<le> length S"
      by (simp add: ctx3_def)
    with prog tl' have
      "length S - tl_r (lookahead (w_ctx ctx3)) < length S - tl_r (lookahead (w_ctx ctx))"
      by (simp add: ctx1_def ctx3_def)
    from less.hyps [OF this inv2 [folded ctx3_def]] obtain toks' ctx' i'' s' where
      "compress_read_loop ctx3 i' s2 = Some (Inr (EOF, ctx', s'))"
      "enc_inv S s0 toks' ctx' i'' s'" "hd_r (lookahead (w_ctx ctx')) = length S"
      by blast
    moreover have "compress_read_loop ctx i s = compress_read_loop ctx3 i' s2"
      by (subst compress_read_loop.simps)
         (simp add: rd True ch [unfolded ctx1_def] ctx3_def del: wnd_read.simps)
    ultimately show ?thesis by auto
  qed
qed

text \<open>The second loop ends, with an empty lookahead.\<close>

lemma compress_drain_loop_enc:
  assumes "enc_inv S s0 toks ctx i s"
  shows "\<exists>toks' ctx' s'. compress_drain_loop ctx s = Some (Inr (ctx', s')) \<and>
     enc_inv S s0 toks' ctx' i s' \<and> ring_size (lookahead (w_ctx ctx')) = 0 \<and>
     hd_r (lookahead (w_ctx ctx')) = hd_r (lookahead (w_ctx ctx))"
  using assms
proof (induction "length S - tl_r (lookahead (w_ctx ctx))" arbitrary: toks ctx s
    rule: less_induct)
  case less
  note inv = less.prems
  show ?case
  proof (cases "ring_size (lookahead (w_ctx ctx)) = 0")
    case True
    have "compress_drain_loop ctx s = Some (Inr (ctx, s))"
      by (subst compress_drain_loop.simps) (simp add: True)
    with inv True show ?thesis by auto
  next
    case False
    then have "1 \<le> ring_size (lookahead (w_ctx ctx))" by simp
    from compress_helper_enc [OF inv this] obtain ctx2 s2 mt where
      ch: "compress_helper ctx s = Some (Inr (ctx2, s2))"
      and inv2: "enc_inv S s0 (toks @ [mt]) (ctx2\<lparr>n_ctx := n_ctx ctx2 + 1\<rparr>) i s2"
      and prog: "tl_r (lookahead (w_ctx ctx)) < tl_r (lookahead (w_ctx ctx2))"
      and hd: "hd_r (lookahead (w_ctx ctx2)) = hd_r (lookahead (w_ctx ctx))"
      by blast
    define ctx3 where "ctx3 = ctx2\<lparr>n_ctx := n_ctx ctx2 + 1\<rparr>"
    from inv2 have "wnd_holds S (w_ctx ctx3) i" by (simp add: enc_inv_def ctx3_def)
    from wnd_holds_bounds [OF this] have "tl_r (lookahead (w_ctx ctx2)) \<le> length S"
      by (simp add: ctx3_def)
    with prog have
      "length S - tl_r (lookahead (w_ctx ctx3)) < length S - tl_r (lookahead (w_ctx ctx))"
      by (simp add: ctx3_def)
    from less.hyps [OF this inv2 [folded ctx3_def]] obtain toks' ctx' s' where
      "compress_drain_loop ctx3 s2 = Some (Inr (ctx', s'))"
      "enc_inv S s0 toks' ctx' i s'" "ring_size (lookahead (w_ctx ctx')) = 0"
      "hd_r (lookahead (w_ctx ctx')) = hd_r (lookahead (w_ctx ctx3))"
      by blast
    moreover have "compress_drain_loop ctx s = compress_drain_loop ctx3 s2"
      by (subst compress_drain_loop.simps) (simp add: False ch ctx3_def)
    ultimately show ?thesis using hd by (auto simp: ctx3_def)
  qed
qed

lemma enc_inv_init:
  assumes "rerrno i = None" and "room s = None"
  shows "enc_inv (pending i) s [] ((ctx_init ctx0)\<lparr>n_ctx := 0\<rparr>) i s"
proof -
  have "wnd_holds (pending i) (wnd_init (w_ctx ctx0)) i"
    using assms(1) wnd_inv_init [of "w_ctx ctx0"]
    by (simp add: wnd_holds_def) (simp add: wnd_init_def)
  with assms(2) grp_inv_init [of ctx0] show ?thesis
    by (simp add: enc_inv_def toks_decode_def) (simp add: ctx_init_def wnd_init_def)
qed

text \<open>\<open>compress\<close> returns 0 and has written the frame of a token list that stands for the
  input.\<close>

lemma compress_frames:
  assumes "rerrno i = None" and "room s = None"
  shows "\<exists>toks. compress ctx0 i s = Some (Inr (s\<lparr>written := written s @ frame_at 0 toks\<rparr>)) \<and>
     (\<forall>hist. toks_decode hist toks = hist @ pending i)"
proof -
  define S where "S = pending i"
  from compress_read_loop_enc [OF enc_inv_init [OF assms, of ctx0]] obtain toks1 ctx1 i1 s1
    where l1: "compress_read_loop ((ctx_init ctx0)\<lparr>n_ctx := 0\<rparr>) i s = Some (Inr (EOF, ctx1, s1))"
      and inv1: "enc_inv S s toks1 ctx1 i1 s1"
      and hd1: "hd_r (lookahead (w_ctx ctx1)) = length S"
    unfolding S_def by blast
  from compress_drain_loop_enc [OF inv1] hd1 obtain toks ctx2 s2
    where l2: "compress_drain_loop ctx1 s1 = Some (Inr (ctx2, s2))"
      and inv2: "enc_inv S s toks ctx2 i1 s2"
      and sz: "ring_size (lookahead (w_ctx ctx2)) = 0"
      and hd2: "hd_r (lookahead (w_ctx ctx2)) = length S"
    by auto
  define N where "N = unat (n_ctx ctx2)"
  define q where "q = length toks - N"
  from inv2 have g: "grp_inv ctx2" and wh: "wnd_holds S (w_ctx ctx2) i1"
    and Nl: "N \<le> length toks" and q8: "q mod 8 = 0"
    and s2: "s2 = s\<lparr>written := written s @ frame_at 0 (take q toks)\<rparr>"
    and mm: "map (m_ctx ctx2) [0..<N] = drop q toks"
    and cc: "n_ctx ctx2 \<noteq> 0 \<longrightarrow> ucast (c_ctx ctx2) = ctl_byte (drop q toks)"
    and dec: "\<And>hist. toks_decode hist toks = hist @ take (tl_r (lookahead (w_ctx ctx2))) S"
    unfolding enc_inv_def N_def q_def by simp_all
  from wnd_holds_bounds(1) [OF wh] sz hd2 have "tl_r (lookahead (w_ctx ctx2)) = length S"
    by (simp add: ring_size_def)
  with dec have d: "\<forall>hist. toks_decode hist toks = hist @ S" by simp
  from g have "n_ctx ctx2 \<le> 8" by (simp add: grp_inv_def)
  then have N8: "N \<le> 8" by (simp add: N_def word_le_nat_alt)
  have c: "compress ctx0 i s =
      (if n_ctx ctx2 \<noteq> 0 then Some (encode (m_ctx ctx2) (n_ctx ctx2) (c_ctx ctx2) s2)
       else Some (Inr s2))"
    by (simp add: compress_def l1 l2)
  have "compress ctx0 i s = Some (Inr (s\<lparr>written := written s @ frame_at 0 toks\<rparr>))"
  proof (cases "n_ctx ctx2 = 0")
    case True
    then have "q = length toks" by (simp add: q_def N_def)
    with True c s2 show ?thesis by simp
  next
    case False
    then have "N \<noteq> 0" by (simp add: N_def unat_eq_0)
    with Nl N8 have ql: "q < length toks" "length toks - q \<le> 8" by (simp_all add: q_def)
    from assms(2) have r2: "room s2 = None" by (simp add: s2)
    from False cc have cv: "ucast (c_ctx ctx2) = ctl_byte (drop q toks)" by simp
    from encode_ok [OF r2 False, of "m_ctx ctx2" "c_ctx ctx2"] False c
      frame_flush [OF ql(1) q8 ql(2)]
    show ?thesis
      unfolding N_def [symmetric] mm cv by (simp add: s2)
  qed
  with d show ?thesis unfolding S_def by blast
qed

section \<open>The round trip\<close>

lemma decoded_frame:
  assumes "\<forall>hist. toks_decode hist toks = hist @ S"
  shows "decoded buf0 (frame_at 0 toks) = S"
    and "stream_end 0 0 (frame_at 0 toks) = Complete"
proof -
  have "sdecode 0 0 (init_hist buf0) (frame_at 0 toks) =
      (Complete, toks_decode (init_hist buf0) toks)"
    by (rule sdecode_frame) simp
  with assms have r: "sdecode 0 0 (init_hist buf0) (frame_at 0 toks) =
      (Complete, init_hist buf0 @ S)" by simp
  then show "decoded buf0 (frame_at 0 toks) = S"
    by (simp add: decoded_def init_hist_def)
  from r sdecode_ending(1) [of 0 0 "init_hist buf0" "frame_at 0 toks"]
  show "stream_end 0 0 (frame_at 0 toks) = Complete" by simp
qed

text \<open>
  Claim C1.  For every input, whatever the uninitialised memory of \<open>compress\<close> and
  \<open>decompress\<close> holds: when the source has no read error and the sinks never fail,
  \<open>compress\<close> returns 0 and has appended some bytes \<open>z\<close> to its sink, and \<open>decompress\<close>
  on \<open>z\<close> returns 0 and has appended exactly the bytes of the input to its sink.
\<close>

theorem C1_round_trip:
  assumes "rerrno i = None" and "room s = None" and "room s' = None"
  shows "\<exists>z. compress ctx0 i s = Some (Inr (s\<lparr>written := written s @ z\<rparr>)) \<and>
     decompress buf0 map0 (source_of z) s' = (OK, s'\<lparr>written := written s' @ pending i\<rparr>)"
proof -
  from compress_frames [OF assms(1,2), of ctx0] obtain toks where
    c: "compress ctx0 i s = Some (Inr (s\<lparr>written := written s @ frame_at 0 toks\<rparr>))"
    and d: "\<forall>hist. toks_decode hist toks = hist @ pending i"
    by blast
  from decompress_refines [of buf0 map0 "source_of (frame_at 0 toks)" s']
  have "decompress buf0 map0 (source_of (frame_at 0 toks)) s' =
      (OK, s'\<lparr>written := written s' @ pending i\<rparr>)"
    using decoded_frame(1) [OF d, of buf0] decoded_frame(2) [OF d]
      write_all_never_fails [OF assms(3)]
    by (simp add: source_of_def end_status_def)
  with c show ?thesis by blast
qed

text \<open>The theorem on the eight bytes \<open>ABABABAB\<close>, which are compressed to five bytes.\<close>

theorem C1_round_trip_witness:
  "rerrno (source_of [0x41, 0x42, 0x41, 0x42, 0x41, 0x42, 0x41, 0x42]) = None \<and>
   room sink_empty = None \<and>
   compress ctx_zero (source_of [0x41, 0x42, 0x41, 0x42, 0x41, 0x42, 0x41, 0x42]) sink_empty =
     Some (Inr (sink_empty\<lparr>written := [0x04, 0x41, 0x42, 0x01, 0x05]\<rparr>)) \<and>
   decompress buf_zero 0 (source_of [0x04, 0x41, 0x42, 0x01, 0x05]) sink_empty =
     (OK, sink_empty\<lparr>written := [0x41, 0x42, 0x41, 0x42, 0x41, 0x42, 0x41, 0x42]\<rparr>)"
proof -
  have i: "rerrno (source_of [0x41, 0x42, 0x41, 0x42, 0x41, 0x42, 0x41, 0x42]) = None"
    by (simp add: source_of_def)
  have r: "room sink_empty = None" by (simp add: sink_empty_def)
  have c: "compress ctx_zero (source_of [0x41, 0x42, 0x41, 0x42, 0x41, 0x42, 0x41, 0x42])
      sink_empty = Some (Inr (sink_empty\<lparr>written := [0x04, 0x41, 0x42, 0x01, 0x05]\<rparr>))"
    by (simp add: lzpi_eval)
  from C1_round_trip [OF i r r, of ctx_zero buf_zero 0] c
  have "decompress buf_zero 0 (source_of [0x04, 0x41, 0x42, 0x01, 0x05]) sink_empty =
     (OK, sink_empty\<lparr>written := [0x41, 0x42, 0x41, 0x42, 0x41, 0x42, 0x41, 0x42]\<rparr>)"
    by (auto simp add: source_of_def sink_empty_def)
  with i r c show ?thesis by simp
qed


section \<open>The bit order of the control byte\<close>

lemma decompress_frame:
  assumes "room s = None"
  shows "decompress buf0 map0 (source_of (frame_at 0 toks)) s =
     (OK, s\<lparr>written := written s @ drop 256 (toks_decode (init_hist buf0) toks)\<rparr>)"
proof -
  have r: "sdecode 0 0 (init_hist buf0) (frame_at 0 toks) =
      (Complete, toks_decode (init_hist buf0) toks)"
    by (rule sdecode_frame) simp
  have e: "stream_end 0 0 (frame_at 0 toks) = Complete"
    using sdecode_ending(1) [of 0 0 "init_hist buf0" "frame_at 0 toks"] r by simp
  from decompress_refines [of buf0 map0 "source_of (frame_at 0 toks)" s] show ?thesis
    using write_all_never_fails [OF assms] r e
    by (simp add: source_of_def end_status_def decoded_def)
qed

text \<open>
  Claim C2, as the code has it.  The mask \<open>0x80808080\<close> is rotated before the first
  token of a group, so token \<open>k\<close> of a group is tagged with bit \<open>k\<close> of the control byte,
  bit 0 being the least significant.  On an input without a read error and a sink that
  never fails, \<open>compress\<close> writes the frame of a token list that stands for the input; in
  a frame every group is a control byte and up to eight tokens, a literal one byte and a
  back-reference two, and bit \<open>k\<close> of the control byte is set exactly when there is a
  token \<open>k\<close> in the group and it is a back-reference (stored length not zero).
  \<open>decompress\<close> reads every token of every frame with the kind that this bit gives: it
  writes what the tokens stand for and returns 0.
\<close>

theorem C2_wire_format:
  assumes "rerrno i = None" and "room s = None" and "room s' = None"
  shows "(\<exists>toks. compress ctx0 i s = Some (Inr (s\<lparr>written := written s @ frame_at 0 toks\<rparr>)) \<and>
            (\<forall>hist. toks_decode hist toks = hist @ pending i)) \<and>
         (\<forall>g k. bit (ctl_byte g) k \<longleftrightarrow> k < 8 \<and> k < length g \<and> l_m (g ! k) \<noteq> 0) \<and>
         (\<forall>t x xs. t mod 8 = 0 \<longrightarrow>
            frame_at t (x # xs) =
              ctl_byte (take 8 (x # xs)) # concat (map token_bytes (take 8 (x # xs))) @
              frame_at (t + 8) (drop 8 (x # xs))) \<and>
         (\<forall>toks. decompress buf0 map0 (source_of (frame_at 0 toks)) s' =
            (OK, s'\<lparr>written := written s' @ drop 256 (toks_decode (init_hist buf0) toks)\<rparr>))"
proof (intro conjI allI impI)
  from compress_frames [OF assms(1,2)]
  show "\<exists>toks. compress ctx0 i s = Some (Inr (s\<lparr>written := written s @ frame_at 0 toks\<rparr>)) \<and>
      (\<forall>hist. toks_decode hist toks = hist @ pending i)" .
next
  fix g k
  show "bit (ctl_byte g) k \<longleftrightarrow> k < 8 \<and> k < length g \<and> l_m (g ! k) \<noteq> 0"
    by (rule ctl_byte_bit)
next
  fix t :: nat and x :: match and xs :: "match list"
  assume t: "t mod 8 = 0"
  define g where "g = x # xs"
  have ne: "take 8 g \<noteq> []" by (simp add: g_def)
  have "frame_at t g = frame_at t (take 8 g @ drop 8 g)" by simp
  also have "\<dots> = frame_at t (take 8 g) @ frame_at (t + length (take 8 g)) (drop 8 g)"
  proof (cases "8 \<le> length g")
    case True
    with t have "(t + length (take 8 g)) mod 8 = 0" by (simp add: min_def)
    then show ?thesis by (rule frame_at_append)
  next
    case False
    then show ?thesis by simp
  qed
  also have "frame_at t (take 8 g) = ctl_byte (take 8 g) # concat (map token_bytes (take 8 g))"
    using t ne by (rule frame_at_group) simp
  also have "frame_at (t + length (take 8 g)) (drop 8 g) = frame_at (t + 8) (drop 8 g)"
    by (cases "8 \<le> length g") (simp_all add: min_def)
  finally show "frame_at t (x # xs) =
      ctl_byte (take 8 (x # xs)) # concat (map token_bytes (take 8 (x # xs))) @
      frame_at (t + 8) (drop 8 (x # xs))"
    unfolding g_def by (simp only: append_Cons)
next
  fix toks
  from assms(3)
  show "decompress buf0 map0 (source_of (frame_at 0 toks)) s' =
      (OK, s'\<lparr>written := written s' @ drop 256 (toks_decode (init_hist buf0) toks)\<rparr>)"
    by (rule decompress_frame)
qed

text \<open>The theorem on the ten zero bytes, of which the tokens are the literal \<open>0x00\<close> and
  the back-reference with the stored offset \<open>0x00\<close> and the stored length \<open>0x08\<close>; their
  frame has the control byte \<open>0x02\<close>.\<close>

theorem C2_wire_format_witness:
  "rerrno (source_of [0, 0, 0, 0, 0, 0, 0, 0, 0, 0]) = None \<and> room sink_empty = None \<and>
   (\<exists>toks. compress ctx_zero (source_of [0, 0, 0, 0, 0, 0, 0, 0, 0, 0]) sink_empty =
        Some (Inr (sink_empty\<lparr>written := written sink_empty @ frame_at 0 toks\<rparr>)) \<and>
      (\<forall>hist. toks_decode hist toks = hist @ pending (source_of [0, 0, 0, 0, 0, 0, 0, 0, 0, 0]))) \<and>
   bit (ctl_byte [\<lparr>o_m = 0, l_m = 0\<rparr>, \<lparr>o_m = 0, l_m = 8\<rparr>]) 1 \<and>
   frame_at 0 [\<lparr>o_m = 0, l_m = 0\<rparr>, \<lparr>o_m = 0, l_m = 8\<rparr>] = [0x02, 0x00, 0x00, 0x08] \<and>
   decompress buf_zero 0 (source_of (frame_at 0 [\<lparr>o_m = 0, l_m = 0\<rparr>, \<lparr>o_m = 0, l_m = 8\<rparr>]))
       sink_empty =
     (OK, sink_empty\<lparr>written := written sink_empty @
        drop 256 (toks_decode (init_hist buf_zero) [\<lparr>o_m = 0, l_m = 0\<rparr>, \<lparr>o_m = 0, l_m = 8\<rparr>])\<rparr>)"
proof -
  have i: "rerrno (source_of [0, 0, 0, 0, 0, 0, 0, 0, 0, 0]) = None"
    by (simp add: source_of_def)
  have r: "room sink_empty = None" by (simp add: sink_empty_def)
  note T = C2_wire_format [OF i r r, of ctx_zero buf_zero 0]
  from T have a: "\<exists>toks. compress ctx_zero (source_of [0, 0, 0, 0, 0, 0, 0, 0, 0, 0]) sink_empty =
        Some (Inr (sink_empty\<lparr>written := written sink_empty @ frame_at 0 toks\<rparr>)) \<and>
      (\<forall>hist. toks_decode hist toks = hist @ pending (source_of [0, 0, 0, 0, 0, 0, 0, 0, 0, 0]))"
    by (rule conjunct1)
  from T have "\<forall>g k. bit (ctl_byte g) k \<longleftrightarrow> k < 8 \<and> k < length g \<and> l_m (g ! k) \<noteq> 0"
    by blast
  then have b: "bit (ctl_byte [\<lparr>o_m = 0, l_m = 0\<rparr>, \<lparr>o_m = 0, l_m = 8\<rparr>]) 1"
    by simp
  have f: "frame_at 0 [\<lparr>o_m = 0, l_m = 0\<rparr>, \<lparr>o_m = 0, l_m = 8\<rparr>] = [0x02, 0x00, 0x00, 0x08]"
    by (simp add: token_bytes_def)
  from T have "\<forall>toks. decompress buf_zero 0 (source_of (frame_at 0 toks)) sink_empty =
      (OK, sink_empty\<lparr>written := written sink_empty @
         drop 256 (toks_decode (init_hist buf_zero) toks)\<rparr>)"
    by blast
  then have d: "decompress buf_zero 0
      (source_of (frame_at 0 [\<lparr>o_m = 0, l_m = 0\<rparr>, \<lparr>o_m = 0, l_m = 8\<rparr>])) sink_empty =
     (OK, sink_empty\<lparr>written := written sink_empty @
        drop 256 (toks_decode (init_hist buf_zero) [\<lparr>o_m = 0, l_m = 0\<rparr>, \<lparr>o_m = 0, l_m = 8\<rparr>])\<rparr>)"
    by (rule spec)
  from i r a b f d show ?thesis by (intro conjI)
qed

text \<open>
  The bit order of the claim is not the one of the code.  The ten zero bytes are
  compressed to a group whose token 1 is a back-reference, the two bytes \<open>0x00, 0x08\<close>,
  and whose control byte is \<open>0x02\<close>: its bit 1 is set and its bit \<open>7 - 1\<close> is not.  In
  the stream \<open>0x40, 0x41, 0x00, 0x00\<close> bit \<open>7 - 1\<close> of the control byte is set, and
  \<open>decompress\<close> reads token 1 as a literal: it writes the three bytes behind the control
  byte, where a back-reference with the stored offset and length 0 would repeat \<open>0x41\<close>.
\<close>

theorem C2_wire_format_counterexample:
  "compress ctx_zero (source_of [0, 0, 0, 0, 0, 0, 0, 0, 0, 0]) sink_empty =
     Some (Inr (sink_empty\<lparr>written := [0x02, 0x00, 0x00, 0x08]\<rparr>)) \<and>
   bit (0x02 :: byte) 1 \<and> \<not> bit (0x02 :: byte) (7 - 1) \<and>
   bit (0x40 :: byte) (7 - 1) \<and>
   decompress buf_zero 0 (source_of [0x40, 0x41, 0x00, 0x00]) sink_empty =
     (OK, sink_empty\<lparr>written := [0x41, 0x00, 0x00]\<rparr>) \<and>
   decompress buf_zero 0 (source_of [0x02, 0x41, 0x00, 0x00]) sink_empty =
     (OK, sink_empty\<lparr>written := [0x41, 0x41]\<rparr>)"
  by (simp add: lzpi_eval)

end
